theory Spec2Isabelle
  imports Main
begin

section \<open>Data model\<close>

text \<open>
  The relational schema of \<^verbatim>\<open>prisma/migrations/20251223_init/migration.sql\<close>, restricted to
  the tables and columns that the quiz save, quiz submit and question reorder handlers read or
  write. Identifiers are the \<^verbatim>\<open>TEXT\<close> primary keys; \<^verbatim>\<open>INTEGER\<close> columns are
  \<^typ>\<open>int\<close>; timestamps are natural numbers (milliseconds). The bookkeeping columns
  \<^verbatim>\<open>createdAt\<close>/\<^verbatim>\<open>updatedAt\<close> that the ORM maintains on every row are not modelled, and
  neither is the surrogate \<^verbatim>\<open>id\<close> of an Answer row: an Answer is identified by its
  (attemptId, questionId) pair, and its rows of the join table \<^verbatim>\<open>_AnswerToChoice\<close>
  (primary key (A, B), hence a set) are kept with it.
\<close>

type_synonym ident = string

datatype QuestionType = SINGLE_CHOICE | MULTIPLE_CHOICE

datatype AttemptStatus = IN_PROGRESS | SUBMITTED | GRADED

record Quiz =
  z_id :: ident
  z_isPublished :: bool

record Question =
  q_id :: ident
  q_prompt :: string
  q_hint :: "string option"
  q_rationale :: "string option"
  q_type :: QuestionType
  q_order :: int
  q_quizId :: ident

record Choice =
  c_id :: ident
  c_text :: string
  c_isCorrect :: bool
  c_order :: int
  c_questionId :: ident

record Attempt =
  at_id :: ident
  at_status :: AttemptStatus
  at_attemptNo :: int
  at_startedAt :: nat
  at_submittedAt :: "nat option"
  at_score :: "int option"
  at_userId :: ident
  at_quizId :: ident

record Answer =
  an_attemptId :: ident
  an_questionId :: ident
  an_choices :: "ident set"

record Store =
  user_rows :: "ident list"
  quiz_rows :: "Quiz list"
  question_rows :: "Question list"
  choice_rows :: "Choice list"
  attempt_rows :: "Attempt list"
  answer_rows :: "Answer list"

section \<open>Request bodies and responses\<close>

text \<open>
  \<^verbatim>\<open>SaveBody\<close> and \<^verbatim>\<open>SubmitBody\<close> are the same type. \<^verbatim>\<open>attemptId\<close> is optional, and
  the handlers guard every \<^verbatim>\<open>choiceIds\<close> with \<^verbatim>\<open>?? []\<close>, so both are options here.
  A request whose JSON does not parse has no body; the handlers answer it, and a body whose
  \<^verbatim>\<open>answers\<close> is not an array, with 400, and the type below has only arrays.
\<close>

record AnswerEntry =
  questionId :: ident
  choiceIds :: "ident list option"

record Body =
  quizId :: ident
  attemptId :: "ident option"
  answers :: "AnswerEntry list"

text \<open>
  The errors that the database raises for the constraints declared in the migration: a unique
  index or primary key, a foreign key, and a record that an operation requires and does not
  find. The string names the constraint.
\<close>

datatype PrismaError =
  UniqueConstraintFailed string
| ForeignKeyConstraintFailed string
| RecordNotFound string

text \<open>
  A handler answers with \<^verbatim>\<open>jsonOk\<close> (the \<open>Inr\<close> results below), with \<^verbatim>\<open>jsonError\<close> and its
  status, or it lets an exception of the ORM escape, which the framework turns into a
  response with status 500.
\<close>

datatype failure =
  JsonError nat string
| Uncaught PrismaError

fun status_of :: "failure \<Rightarrow> nat" where
  "status_of (JsonError st msg) = st"
| "status_of (Uncaught e) = 500"

definition is_400_class :: "failure \<Rightarrow> bool" where
  "is_400_class f = (400 \<le> status_of f \<and> status_of f < 500)"

text \<open>
  What a request brings besides its body: the result of \<^verbatim>\<open>requireAuth\<close> (the user id of the
  token, or nothing), the verdict of the rate limiter, the clock, and the identifier that the
  ORM generates for an Attempt row it creates.
\<close>

record Env =
  auth :: "ident option"
  rl_ok :: bool
  now :: nat
  newId :: ident

section \<open>JavaScript values\<close>

text \<open>
  A JavaScript \<^verbatim>\<open>Set\<close> keeps its members in insertion order without repetition: it is a
  list here, \<^verbatim>\<open>size\<close> is its length and \<^verbatim>\<open>has\<close> is membership.
\<close>

definition Set_add :: "'a list \<Rightarrow> 'a \<Rightarrow> 'a list" where
  "Set_add s x = (if x \<in> set s then s else s @ [x])"

definition new_Set :: "'a list \<Rightarrow> 'a list" where
  "new_Set xs = foldl Set_add [] xs"

text \<open>\<^verbatim>\<open>Boolean\<close> on a string: only the empty string is falsy.\<close>

definition Boolean :: "string \<Rightarrow> bool" where
  "Boolean x = (x \<noteq> [])"


text \<open>\<^verbatim>\<open>a.choiceIds ?? []\<close>\<close>

fun or_empty :: "'a list option \<Rightarrow> 'a list" where
  "or_empty None = []"
| "or_empty (Some xs) = xs"

section \<open>Submission scoring\<close>

text \<open>
  What \<^verbatim>\<open>prisma.question.findMany\<close> selects for the submit handler: id, type and the
  nested choices with id and isCorrect.
\<close>

record SelQuestion =
  sq_id :: ident
  sq_type :: QuestionType
  sq_choices :: "(ident \<times> bool) list"

definition select_question :: "Store \<Rightarrow> Question \<Rightarrow> SelQuestion" where
  "select_question s q =
     \<lparr>sq_id = q_id q, sq_type = q_type q,
      sq_choices = map (\<lambda>c. (c_id c, c_isCorrect c))
                     (filter (\<lambda>c. c_questionId c = q_id q) (choice_rows s))\<rparr>"

definition question_findMany :: "Store \<Rightarrow> ident \<Rightarrow> SelQuestion list" where
  "question_findMany s qz = map (select_question s) (filter (\<lambda>q. q_quizId q = qz) (question_rows s))"

text \<open>\<^verbatim>\<open>new Map(questions.map((q) => [q.id, q]))\<close>: a later entry replaces an earlier one.\<close>

definition byQuestionId :: "SelQuestion list \<Rightarrow> ident \<Rightarrow> SelQuestion option" where
  "byQuestionId qs = map_of (rev (map (\<lambda>q. (sq_id q, q)) qs))"

text \<open>\<^verbatim>\<open>new Set((a.choiceIds ?? []).filter(Boolean))\<close>\<close>

definition submitted_of :: "AnswerEntry \<Rightarrow> ident list" where
  "submitted_of a = new_Set (filter Boolean (or_empty (choiceIds a)))"

text \<open>\<^verbatim>\<open>new Set(q.choices.map((c) => c.id))\<close>\<close>

definition validChoiceIds_of :: "SelQuestion \<Rightarrow> ident list" where
  "validChoiceIds_of q = new_Set (map fst (sq_choices q))"

text \<open>\<^verbatim>\<open>new Set(q.choices.filter((c) => c.isCorrect).map((c) => c.id))\<close>\<close>

definition correct_of :: "SelQuestion \<Rightarrow> ident list" where
  "correct_of q = new_Set (map fst (filter snd (sq_choices q)))"

text \<open>
  The closure \<^verbatim>\<open>isCorrect\<close> of the submit handler. In the single-choice branch the loop
  over \<^verbatim>\<open>submitted\<close> returns at its first member.
\<close>

definition isCorrect :: "QuestionType \<Rightarrow> ident list \<Rightarrow> ident list \<Rightarrow> bool" where
  "isCorrect ty submitted correct =
     (if ty = SINGLE_CHOICE then
        (if length submitted \<noteq> 1 then False
         else (case submitted of
                 cid # rest \<Rightarrow> cid \<in> set correct \<and> length correct = 1
               | [] \<Rightarrow> False))
      else
        (if length submitted \<noteq> length correct then False
         else list_all (\<lambda>cid. cid \<in> set submitted) correct))"

text \<open>
  The loop \<^verbatim>\<open>for (const a of body.answers)\<close> that validates and scores, with the running
  \<^verbatim>\<open>score\<close> as accumulator. It returns from the handler at the first entry whose question
  is not of the quiz or that has a submitted choice which is not of the question.
\<close>

fun score_loop :: "SelQuestion list \<Rightarrow> AnswerEntry list \<Rightarrow> int \<Rightarrow> failure + int" where
  "score_loop qs [] score = Inr score"
| "score_loop qs (a # rest) score =
     (case byQuestionId qs (questionId a) of
        None \<Rightarrow> Inl (JsonError 400 ''Invalid questionId.'')
      | Some q \<Rightarrow>
          (let submitted = submitted_of a;
               validChoiceIds = validChoiceIds_of q
           in if list_ex (\<lambda>cid. cid \<notin> set validChoiceIds) submitted
              then Inl (JsonError 400 ''Invalid choiceId.'')
              else score_loop qs rest
                     (if isCorrect (sq_type q) submitted (correct_of q) then score + 1 else score)))"

section \<open>Database operations\<close>

text \<open>
  The ORM calls of the handlers, as functions on the store. A write fails where a constraint
  of the migration forbids it: the primary keys, the unique indexes
  \<^verbatim>\<open>Attempt_userId_quizId_attemptNo_key\<close>, \<^verbatim>\<open>Answer_attemptId_questionId_key\<close> and
  \<^verbatim>\<open>Question_quizId_order_key\<close>, and the foreign keys. PostgreSQL checks a unique index at
  the end of each statement, not at commit.
\<close>

definition quiz_findUnique :: "Store \<Rightarrow> ident \<Rightarrow> Quiz option" where
  "quiz_findUnique s qz = find (\<lambda>z. z_id z = qz) (quiz_rows s)"

text \<open>
  \<^verbatim>\<open>tx.attempt.findFirst({ where: { id, userId, quizId, status: "IN_PROGRESS" } })\<close>
\<close>

definition attempt_findFirst_hint :: "Store \<Rightarrow> ident \<Rightarrow> ident \<Rightarrow> ident \<Rightarrow> Attempt option" where
  "attempt_findFirst_hint s aid uid qz =
     find (\<lambda>a. at_id a = aid \<and> at_userId a = uid \<and> at_quizId a = qz \<and> at_status a = IN_PROGRESS)
       (attempt_rows s)"

text \<open>The first row of a list ordered by \<^verbatim>\<open>startedAt\<close> descending.\<close>

fun newest :: "Attempt list \<Rightarrow> Attempt option" where
  "newest [] = None"
| "newest (a # rest) =
     (case newest rest of
        None \<Rightarrow> Some a
      | Some b \<Rightarrow> if at_startedAt a < at_startedAt b then Some b else Some a)"

text \<open>
  \<^verbatim>\<open>tx.attempt.findFirst({ where: { userId, quizId, status: "IN_PROGRESS" },
  orderBy: { startedAt: "desc" } })\<close>
\<close>

definition attempt_findFirst_latest :: "Store \<Rightarrow> ident \<Rightarrow> ident \<Rightarrow> Attempt option" where
  "attempt_findFirst_latest s uid qz =
     newest (filter (\<lambda>a. at_userId a = uid \<and> at_quizId a = qz \<and> at_status a = IN_PROGRESS)
       (attempt_rows s))"

fun max_list :: "int list \<Rightarrow> int option" where
  "max_list [] = None"
| "max_list (x # xs) = (case max_list xs of None \<Rightarrow> Some x | Some m \<Rightarrow> Some (max x m))"

text \<open>
  \<^verbatim>\<open>tx.attempt.aggregate({ where: { userId, quizId }, _max: { attemptNo: true } })\<close>:
  null when the user has no attempt of the quiz.
\<close>

definition attempt_aggregate_max :: "Store \<Rightarrow> ident \<Rightarrow> ident \<Rightarrow> int option" where
  "attempt_aggregate_max s uid qz =
     max_list (map at_attemptNo (filter (\<lambda>a. at_userId a = uid \<and> at_quizId a = qz) (attempt_rows s)))"

text \<open>\<^verbatim>\<open>(last._max.attemptNo ?? 0) + 1\<close>\<close>

definition next_attemptNo :: "Store \<Rightarrow> ident \<Rightarrow> ident \<Rightarrow> int" where
  "next_attemptNo s uid qz = (case attempt_aggregate_max s uid qz of None \<Rightarrow> 0 | Some m \<Rightarrow> m) + 1"

definition answer_is :: "ident \<Rightarrow> ident \<Rightarrow> Answer \<Rightarrow> bool" where
  "answer_is aid qid r = (an_attemptId r = aid \<and> an_questionId r = qid)"

text \<open>Every row that \<^verbatim>\<open>connect\<close> or \<^verbatim>\<open>set\<close> names must be a row of Choice.\<close>

definition connect_ok :: "Store \<Rightarrow> ident list \<Rightarrow> bool" where
  "connect_ok s cids = list_all (\<lambda>cid. list_ex (\<lambda>c. c_id c = cid) (choice_rows s)) cids"

text \<open>Creating an Answer with \<^verbatim>\<open>choices: { connect: ... }\<close>.\<close>

definition answer_create :: "ident \<Rightarrow> ident \<Rightarrow> ident list \<Rightarrow> Store \<Rightarrow> PrismaError + Store" where
  "answer_create aid qid cids s =
     (if list_ex (answer_is aid qid) (answer_rows s)
        then Inl (UniqueConstraintFailed ''Answer_attemptId_questionId_key'')
      else if \<not> list_ex (\<lambda>a. at_id a = aid) (attempt_rows s)
        then Inl (ForeignKeyConstraintFailed ''Answer_attemptId_fkey'')
      else if \<not> list_ex (\<lambda>q. q_id q = qid) (question_rows s)
        then Inl (ForeignKeyConstraintFailed ''Answer_questionId_fkey'')
      else if \<not> connect_ok s cids
        then Inl (RecordNotFound ''_AnswerToChoice_B_fkey'')
      else Inr (s\<lparr>answer_rows := answer_rows s @
                  [\<lparr>an_attemptId = aid, an_questionId = qid, an_choices = set cids\<rparr>]\<rparr>))"

text \<open>Updating an Answer with \<^verbatim>\<open>choices: { set: ... }\<close>: the choice set is replaced.\<close>

definition set_choices :: "ident \<Rightarrow> ident \<Rightarrow> ident list \<Rightarrow> Answer \<Rightarrow> Answer" where
  "set_choices aid qid cids r = (if answer_is aid qid r then r\<lparr>an_choices := set cids\<rparr> else r)"

definition answer_update_set :: "ident \<Rightarrow> ident \<Rightarrow> ident list \<Rightarrow> Store \<Rightarrow> PrismaError + Store" where
  "answer_update_set aid qid cids s =
     (if \<not> connect_ok s cids
        then Inl (RecordNotFound ''_AnswerToChoice_B_fkey'')
      else Inr (s\<lparr>answer_rows := map (set_choices aid qid cids) (answer_rows s)\<rparr>))"

text \<open>\<^verbatim>\<open>tx.answer.upsert({ where: { attemptId_questionId: ... }, create, update })\<close>\<close>

definition answer_upsert :: "ident \<Rightarrow> ident \<Rightarrow> ident list \<Rightarrow> Store \<Rightarrow> PrismaError + Store" where
  "answer_upsert aid qid cids s =
     (if list_ex (answer_is aid qid) (answer_rows s)
      then answer_update_set aid qid cids s
      else answer_create aid qid cids s)"

text \<open>The loop \<^verbatim>\<open>for (const a of body.answers) await tx.answer.upsert(...)\<close>.\<close>

fun upsert_answers :: "ident \<Rightarrow> AnswerEntry list \<Rightarrow> Store \<Rightarrow> PrismaError + Store" where
  "upsert_answers aid [] s = Inr s"
| "upsert_answers aid (a # rest) s =
     (case answer_upsert aid (questionId a) (or_empty (choiceIds a)) s of
        Inl e \<Rightarrow> Inl e
      | Inr s' \<Rightarrow> upsert_answers aid rest s')"

text \<open>The nested \<^verbatim>\<open>answers: { create: body.answers.map(...) }\<close> of a created attempt.\<close>

fun create_answers :: "ident \<Rightarrow> AnswerEntry list \<Rightarrow> Store \<Rightarrow> PrismaError + Store" where
  "create_answers aid [] s = Inr s"
| "create_answers aid (a # rest) s =
     (case answer_create aid (questionId a) (or_empty (choiceIds a)) s of
        Inl e \<Rightarrow> Inl e
      | Inr s' \<Rightarrow> create_answers aid rest s')"

text \<open>\<^verbatim>\<open>tx.attempt.create({ data: { ..., answers: { create: ... } } })\<close>\<close>

definition attempt_create :: "Attempt \<Rightarrow> AnswerEntry list \<Rightarrow> Store \<Rightarrow> PrismaError + Store" where
  "attempt_create a entries s =
     (if list_ex (\<lambda>b. at_id b = at_id a) (attempt_rows s)
        then Inl (UniqueConstraintFailed ''Attempt_pkey'')
      else if at_userId a \<notin> set (user_rows s)
        then Inl (ForeignKeyConstraintFailed ''Attempt_userId_fkey'')
      else if \<not> list_ex (\<lambda>z. z_id z = at_quizId a) (quiz_rows s)
        then Inl (ForeignKeyConstraintFailed ''Attempt_quizId_fkey'')
      else if list_ex (\<lambda>b. at_userId b = at_userId a \<and> at_quizId b = at_quizId a
                            \<and> at_attemptNo b = at_attemptNo a) (attempt_rows s)
        then Inl (UniqueConstraintFailed ''Attempt_userId_quizId_attemptNo_key'')
      else create_answers (at_id a) entries (s\<lparr>attempt_rows := attempt_rows s @ [a]\<rparr>))"

text \<open>
  \<^verbatim>\<open>tx.attempt.update({ where: { id }, data: { status: "SUBMITTED", submittedAt, score } })\<close>
\<close>

definition finalize :: "nat \<Rightarrow> int \<Rightarrow> Attempt \<Rightarrow> Attempt" where
  "finalize t sc a = a\<lparr>at_status := SUBMITTED, at_submittedAt := Some t, at_score := Some sc\<rparr>"

definition attempt_update_finalize :: "ident \<Rightarrow> nat \<Rightarrow> int \<Rightarrow> Store \<Rightarrow> PrismaError + Attempt \<times> Store" where
  "attempt_update_finalize aid t sc s =
     (case find (\<lambda>a. at_id a = aid) (attempt_rows s) of
        None \<Rightarrow> Inl (RecordNotFound ''Attempt'')
      | Some a \<Rightarrow>
          Inr (finalize t sc a,
               s\<lparr>attempt_rows := map (\<lambda>b. if at_id b = aid then finalize t sc b else b) (attempt_rows s)\<rparr>))"

text \<open>
  \<^verbatim>\<open>prisma.$transaction\<close>: the writes of the callback are kept when it returns and discarded
  when it throws.
\<close>

definition transaction :: "(Store \<Rightarrow> 'e + 'a \<times> Store) \<Rightarrow> Store \<Rightarrow> ('e + 'a) \<times> Store" where
  "transaction body s = (case body s of Inl e \<Rightarrow> (Inl e, s) | Inr (r, s') \<Rightarrow> (Inr r, s'))"

section \<open>Draft save: \<^verbatim>\<open>POST /api/quiz/save\<close>\<close>

record SaveOk =
  so_attemptId :: ident
  so_attemptNo :: int

text \<open>
  The attempt that the save handler resolves: by the hint when \<^verbatim>\<open>body.attemptId\<close> is
  truthy, else the most recently started one in progress.
\<close>

definition save_resolve :: "Store \<Rightarrow> ident \<Rightarrow> Body \<Rightarrow> Attempt option" where
  "save_resolve s uid body =
     (case attemptId body of
        Some h \<Rightarrow> if Boolean h then attempt_findFirst_hint s h uid (quizId body)
                  else attempt_findFirst_latest s uid (quizId body)
      | None \<Rightarrow> attempt_findFirst_latest s uid (quizId body))"

definition save_tx :: "ident \<Rightarrow> Env \<Rightarrow> Body \<Rightarrow> Store \<Rightarrow> PrismaError + SaveOk \<times> Store" where
  "save_tx uid env body s =
     (case save_resolve s uid body of
        Some resolvedAttempt \<Rightarrow>
          (case upsert_answers (at_id resolvedAttempt) (answers body) s of
             Inl e \<Rightarrow> Inl e
           | Inr s' \<Rightarrow>
               Inr (\<lparr>so_attemptId = at_id resolvedAttempt,
                     so_attemptNo = at_attemptNo resolvedAttempt\<rparr>, s'))
      | None \<Rightarrow>
          (let attemptNo = next_attemptNo s uid (quizId body);
               created = \<lparr>at_id = newId env, at_status = IN_PROGRESS, at_attemptNo = attemptNo,
                          at_startedAt = now env, at_submittedAt = None, at_score = None,
                          at_userId = uid, at_quizId = quizId body\<rparr>
           in case attempt_create created (answers body) s of
                Inl e \<Rightarrow> Inl e
              | Inr s' \<Rightarrow> Inr (\<lparr>so_attemptId = newId env, so_attemptNo = attemptNo\<rparr>, s')))"

definition save_POST :: "Env \<Rightarrow> Body option \<Rightarrow> Store \<Rightarrow> (failure + SaveOk) \<times> Store" where
  "save_POST env req s =
     (case auth env of
        None \<Rightarrow> (Inl (JsonError 401 ''Unauthorized.''), s)
      | Some uid \<Rightarrow>
          if \<not> rl_ok env then (Inl (JsonError 429 ''Too many requests.''), s)
          else (case req of
                  None \<Rightarrow> (Inl (JsonError 400 ''Invalid payload.''), s)
                | Some body \<Rightarrow>
                    if \<not> Boolean (quizId body) then (Inl (JsonError 400 ''Invalid payload.''), s)
                    else (case quiz_findUnique s (quizId body) of
                            None \<Rightarrow> (Inl (JsonError 404 ''Quiz not available.''), s)
                          | Some quiz \<Rightarrow>
                              if \<not> z_isPublished quiz
                              then (Inl (JsonError 404 ''Quiz not available.''), s)
                              else (case transaction (save_tx uid env body) s of
                                      (Inl e, s') \<Rightarrow> (Inl (Uncaught e), s')
                                    | (Inr r, s') \<Rightarrow> (Inr r, s')))))"

section \<open>Submit: \<^verbatim>\<open>POST /api/quiz/submit\<close>\<close>

record SubmitOk =
  sb_id :: ident
  sb_score :: int
  sb_attemptNo :: int
  sb_totalQuestions :: nat

text \<open>
  The attempt that the submit handler finalizes: the hinted one, looked up only when
  \<^verbatim>\<open>body.attemptId\<close> is truthy. There is no other lookup in this handler.
\<close>

definition submit_resolve :: "Store \<Rightarrow> ident \<Rightarrow> Body \<Rightarrow> Attempt option" where
  "submit_resolve s uid body =
     (case attemptId body of
        Some h \<Rightarrow> if Boolean h then attempt_findFirst_hint s h uid (quizId body) else None
      | None \<Rightarrow> None)"

definition submit_tx ::
  "ident \<Rightarrow> Env \<Rightarrow> Body \<Rightarrow> int \<Rightarrow> Store \<Rightarrow> PrismaError + (ident \<times> int \<times> int) \<times> Store" where
  "submit_tx uid env body score s =
     (case submit_resolve s uid body of
        Some existing \<Rightarrow>
          (case upsert_answers (at_id existing) (answers body) s of
             Inl e \<Rightarrow> Inl e
           | Inr s' \<Rightarrow>
               (case attempt_update_finalize (at_id existing) (now env) score s' of
                  Inl e \<Rightarrow> Inl e
                | Inr (finalized, s'') \<Rightarrow>
                    Inr ((at_id finalized, score, at_attemptNo finalized), s'')))
      | None \<Rightarrow>
          (let attemptNo = next_attemptNo s uid (quizId body);
               created = \<lparr>at_id = newId env, at_status = SUBMITTED, at_attemptNo = attemptNo,
                          at_startedAt = now env, at_submittedAt = Some (now env),
                          at_score = Some score, at_userId = uid, at_quizId = quizId body\<rparr>
           in case attempt_create created (answers body) s of
                Inl e \<Rightarrow> Inl e
              | Inr s' \<Rightarrow> Inr ((newId env, score, attemptNo), s')))"

definition submit_POST :: "Env \<Rightarrow> Body option \<Rightarrow> Store \<Rightarrow> (failure + SubmitOk) \<times> Store" where
  "submit_POST env req s =
     (case auth env of
        None \<Rightarrow> (Inl (JsonError 401 ''Unauthorized.''), s)
      | Some uid \<Rightarrow>
          if \<not> rl_ok env then (Inl (JsonError 429 ''Too many requests.''), s)
          else (case req of
                  None \<Rightarrow> (Inl (JsonError 400 ''Invalid payload.''), s)
                | Some body \<Rightarrow>
                    if \<not> Boolean (quizId body) then (Inl (JsonError 400 ''Invalid payload.''), s)
                    else (case quiz_findUnique s (quizId body) of
                            None \<Rightarrow> (Inl (JsonError 404 ''Quiz not available.''), s)
                          | Some quiz \<Rightarrow>
                              if \<not> z_isPublished quiz
                              then (Inl (JsonError 404 ''Quiz not available.''), s)
                              else (let qs = question_findMany s (quizId body) in
                                    if length qs = 0
                                    then (Inl (JsonError 400 ''Quiz has no questions.''), s)
                                    else (case score_loop qs (answers body) 0 of
                                            Inl f \<Rightarrow> (Inl f, s)
                                          | Inr score \<Rightarrow>
                                              (case transaction (submit_tx uid env body score) s of
                                                 (Inl e, s') \<Rightarrow> (Inl (Uncaught e), s')
                                               | (Inr (i, sc, n), s') \<Rightarrow>
                                                   (Inr \<lparr>sb_id = i, sb_score = sc, sb_attemptNo = n,
                                                         sb_totalQuestions = length qs\<rparr>, s')))))))"

section \<open>Question reorder: the \<^verbatim>\<open>move\<close> branch of \<^verbatim>\<open>PUT /api/admin/question\<close>\<close>

datatype Move = UP | DOWN

text \<open>
  Of \<^verbatim>\<open>UpdateBody\<close>, the fields that the reorder branch reads. The branch is taken when
  \<^verbatim>\<open>body.move\<close> is set; the other fields of the body are ignored then.
\<close>

record UpdateBody =
  ub_id :: ident
  ub_move :: Move

text \<open>What the callback of the reorder transaction throws.\<close>

datatype exn =
  Error string
| Prisma PrismaError

definition question_findUnique :: "Store \<Rightarrow> ident \<Rightarrow> Question option" where
  "question_findUnique s qid = find (\<lambda>q. q_id q = qid) (question_rows s)"

text \<open>The first row of a list ordered by \<^verbatim>\<open>order\<close> descending, and ascending.\<close>

fun greatest_order :: "Question list \<Rightarrow> Question option" where
  "greatest_order [] = None"
| "greatest_order (q # rest) =
     (case greatest_order rest of
        None \<Rightarrow> Some q
      | Some p \<Rightarrow> if q_order q < q_order p then Some p else Some q)"

fun smallest_order :: "Question list \<Rightarrow> Question option" where
  "smallest_order [] = None"
| "smallest_order (q # rest) =
     (case smallest_order rest of
        None \<Rightarrow> Some q
      | Some p \<Rightarrow> if q_order p < q_order q then Some p else Some q)"

text \<open>
  \<^verbatim>\<open>tx.question.findFirst({ where: { quizId, order: { lt } }, orderBy: { order: "desc" } })\<close>
  for UP, and with \<^verbatim>\<open>gt\<close> and \<^verbatim>\<open>asc\<close> for DOWN.
\<close>

fun neighbor_of :: "Store \<Rightarrow> Question \<Rightarrow> Move \<Rightarrow> Question option" where
  "neighbor_of s q UP =
     greatest_order (filter (\<lambda>p. q_quizId p = q_quizId q \<and> q_order p < q_order q) (question_rows s))"
| "neighbor_of s q DOWN =
     smallest_order (filter (\<lambda>p. q_quizId p = q_quizId q \<and> q_order q < q_order p) (question_rows s))"

text \<open>
  \<^verbatim>\<open>tx.question.update({ where: { id }, data: { order } })\<close>. The statement fails when
  another question of the same quiz holds the new order (\<^verbatim>\<open>Question_quizId_order_key\<close>).
\<close>

definition question_update_order :: "ident \<Rightarrow> int \<Rightarrow> Store \<Rightarrow> PrismaError + Store" where
  "question_update_order qid ord s =
     (case question_findUnique s qid of
        None \<Rightarrow> Inl (RecordNotFound ''Question'')
      | Some q \<Rightarrow>
          if list_ex (\<lambda>p. q_id p \<noteq> qid \<and> q_quizId p = q_quizId q \<and> q_order p = ord) (question_rows s)
          then Inl (UniqueConstraintFailed ''Question_quizId_order_key'')
          else Inr (s\<lparr>question_rows :=
                      map (\<lambda>p. if q_id p = qid then p\<lparr>q_order := ord\<rparr> else p) (question_rows s)\<rparr>))"

definition reorder_tx :: "UpdateBody \<Rightarrow> Store \<Rightarrow> exn + unit \<times> Store" where
  "reorder_tx body s =
     (case question_findUnique s (ub_id body) of
        None \<Rightarrow> Inl (Error ''Question not found.'')
      | Some q \<Rightarrow>
          (case neighbor_of s q (ub_move body) of
             None \<Rightarrow> Inr ((), s)
           | Some neighbor \<Rightarrow>
               (case question_update_order (q_id q) (q_order neighbor) s of
                  Inl e \<Rightarrow> Inl (Prisma e)
                | Inr s1 \<Rightarrow>
                    (case question_update_order (q_id neighbor) (q_order q) s1 of
                       Inl e \<Rightarrow> Inl (Prisma e)
                     | Inr s2 \<Rightarrow> Inr ((), s2)))))"

text \<open>
  The message of a caught exception. The text of an ORM error is the ORM's own; it names the
  failed constraint and is never the handler's \<^verbatim>\<open>"Question not found."\<close>.
\<close>

fun message :: "exn \<Rightarrow> string" where
  "message (Error m) = m"
| "message (Prisma (UniqueConstraintFailed c)) = ''Unique constraint failed: '' @ c"
| "message (Prisma (ForeignKeyConstraintFailed c)) = ''Foreign key constraint failed: '' @ c"
| "message (Prisma (RecordNotFound c)) = ''Record not found: '' @ c"

text \<open>
  The handler from \<^verbatim>\<open>requireAdmin\<close> to the end of the reorder branch; \<open>auth env\<close> is the
  result of \<^verbatim>\<open>requireAdmin\<close> here.
\<close>

definition reorder_PUT :: "Env \<Rightarrow> UpdateBody option \<Rightarrow> Store \<Rightarrow> (failure + unit) \<times> Store" where
  "reorder_PUT env req s =
     (case auth env of
        None \<Rightarrow> (Inl (JsonError 403 ''Forbidden.''), s)
      | Some admin \<Rightarrow>
          if \<not> rl_ok env then (Inl (JsonError 429 ''Too many requests.''), s)
          else (case req of
                  None \<Rightarrow> (Inl (JsonError 400 ''id is required.''), s)
                | Some body \<Rightarrow>
                    if \<not> Boolean (ub_id body) then (Inl (JsonError 400 ''id is required.''), s)
                    else (case transaction (reorder_tx body) s of
                            (Inl e, s') \<Rightarrow>
                              (let msg = message e;
                                   status = (if msg = ''Question not found.'' then 404 else 400)
                               in (Inl (JsonError status msg), s'))
                          | (Inr u, s') \<Rightarrow> (Inr (), s'))))"

section \<open>Sequential runs of save and submit requests\<close>

datatype Request =
  Save Env "Body option"
| Submit Env "Body option"

fun step :: "Store \<Rightarrow> Request \<Rightarrow> Store" where
  "step s (Save env req) = snd (save_POST env req s)"
| "step s (Submit env req) = snd (submit_POST env req s)"

definition run :: "Store \<Rightarrow> Request list \<Rightarrow> Store" where
  "run s rs = foldl step s rs"

section \<open>The sets that the scoring rules speak of\<close>

text \<open>
  The submitted choice set of an answer entry, deduplicated: the members of its
  \<^verbatim>\<open>choiceIds\<close>, the falsy ones dropped as line 71 of the submit handler drops them. The
  correct set of a question: the ids of its choices flagged correct.
\<close>

definition submitted_set :: "AnswerEntry \<Rightarrow> ident set" where
  "submitted_set a = set (filter (\<lambda>c. c \<noteq> []) (or_empty (choiceIds a)))"

definition correct_set :: "SelQuestion \<Rightarrow> ident set" where
  "correct_set q = fst ` set (filter snd (sq_choices q))"

definition valid_set :: "SelQuestion \<Rightarrow> ident set" where
  "valid_set q = fst ` set (sq_choices q)"

text \<open>An answer entry that the scoring loop counts: its question is found and answered correctly.\<close>

definition entry_correct :: "SelQuestion list \<Rightarrow> AnswerEntry \<Rightarrow> bool" where
  "entry_correct qs e =
     (case byQuestionId qs (questionId e) of
        None \<Rightarrow> False
      | Some q \<Rightarrow> isCorrect (sq_type q) (submitted_of e) (correct_of q))"

section \<open>Belonging to a quiz and to a question\<close>

definition question_of_quiz :: "Store \<Rightarrow> ident \<Rightarrow> ident \<Rightarrow> bool" where
  "question_of_quiz s qz qid = list_ex (\<lambda>q. q_quizId q = qz \<and> q_id q = qid) (question_rows s)"

definition choice_of_question :: "Store \<Rightarrow> ident \<Rightarrow> ident \<Rightarrow> bool" where
  "choice_of_question s qid cid = list_ex (\<lambda>c. c_questionId c = qid \<and> c_id c = cid) (choice_rows s)"

section \<open>Constraints of the schema as predicates on the store\<close>

text \<open>
  The primary key of Attempt and the unique index \<^verbatim>\<open>Answer_attemptId_questionId_key\<close>.
\<close>

definition pk_attempts :: "Store \<Rightarrow> bool" where
  "pk_attempts s = distinct (map at_id (attempt_rows s))"

definition answer_key :: "Answer \<Rightarrow> ident \<times> ident" where
  "answer_key r = (an_attemptId r, an_questionId r)"

definition unique_answers :: "Store \<Rightarrow> bool" where
  "unique_answers s = distinct (map answer_key (answer_rows s))"

text \<open>An attempt of the user and the quiz that is in progress.\<close>

definition in_progress_of :: "ident \<Rightarrow> ident \<Rightarrow> Attempt \<Rightarrow> bool" where
  "in_progress_of uid qz a = (at_userId a = uid \<and> at_quizId a = qz \<and> at_status a = IN_PROGRESS)"

text \<open>
  The \<^verbatim>\<open>choiceIds\<close> (null read as empty) of the last entry of an answers array for a
  question, if the array has an entry for it.
\<close>

fun last_choiceIds :: "AnswerEntry list \<Rightarrow> ident \<Rightarrow> ident list option" where
  "last_choiceIds [] q = None"
| "last_choiceIds (e # rest) q =
     (case last_choiceIds rest q of
        Some cs \<Rightarrow> Some cs
      | None \<Rightarrow> if questionId e = q then Some (or_empty (choiceIds e)) else None)"

text \<open>The attempt numbers of a user for a quiz, in the order of creation of the attempts.\<close>

definition attemptNos_of :: "Store \<Rightarrow> ident \<Rightarrow> ident \<Rightarrow> int list" where
  "attemptNos_of s uid qz =
     map at_attemptNo (filter (\<lambda>a. at_userId a = uid \<and> at_quizId a = qz) (attempt_rows s))"

text \<open>
  What a pass of upserts for an attempt makes of an Answer row that exists already: its
  choice set becomes that of the last entry for its question.
\<close>

definition overwrite :: "ident \<Rightarrow> AnswerEntry list \<Rightarrow> Answer \<Rightarrow> Answer" where
  "overwrite aid es r =
     (if an_attemptId r = aid
      then (case last_choiceIds es (an_questionId r) of
              Some cs \<Rightarrow> r\<lparr>an_choices := set cs\<rparr>
            | None \<Rightarrow> r)
      else r)"

section \<open>Example data\<close>

text \<open>
  The quiz of the scenario: a single-choice question with choices A (correct) and B, and a
  multiple-choice question with choices C, D (both correct) and E; one user with one attempt
  in progress.
\<close>

definition scenario_store :: Store where
  "scenario_store =
     \<lparr>user_rows = [''u1''],
      quiz_rows = [\<lparr>z_id = ''z1'', z_isPublished = True\<rparr>],
      question_rows =
        [\<lparr>q_id = ''q1'', q_prompt = ''p1'', q_hint = None, q_rationale = None,
          q_type = SINGLE_CHOICE, q_order = 0, q_quizId = ''z1''\<rparr>,
         \<lparr>q_id = ''q2'', q_prompt = ''p2'', q_hint = None, q_rationale = None,
          q_type = MULTIPLE_CHOICE, q_order = 1, q_quizId = ''z1''\<rparr>],
      choice_rows =
        [\<lparr>c_id = ''A'', c_text = ''a'', c_isCorrect = True, c_order = 0, c_questionId = ''q1''\<rparr>,
         \<lparr>c_id = ''B'', c_text = ''b'', c_isCorrect = False, c_order = 1, c_questionId = ''q1''\<rparr>,
         \<lparr>c_id = ''C'', c_text = ''c'', c_isCorrect = True, c_order = 0, c_questionId = ''q2''\<rparr>,
         \<lparr>c_id = ''D'', c_text = ''d'', c_isCorrect = True, c_order = 1, c_questionId = ''q2''\<rparr>,
         \<lparr>c_id = ''E'', c_text = ''e'', c_isCorrect = False, c_order = 2, c_questionId = ''q2''\<rparr>],
      attempt_rows =
        [\<lparr>at_id = ''t1'', at_status = IN_PROGRESS, at_attemptNo = 1, at_startedAt = 5,
          at_submittedAt = None, at_score = None, at_userId = ''u1'', at_quizId = ''z1''\<rparr>],
      answer_rows = []\<rparr>"

definition scenario_q1 :: SelQuestion where
  "scenario_q1 = \<lparr>sq_id = ''q1'', sq_type = SINGLE_CHOICE, sq_choices = [(''A'', True), (''B'', False)]\<rparr>"

definition scenario_q2 :: SelQuestion where
  "scenario_q2 = \<lparr>sq_id = ''q2'', sq_type = MULTIPLE_CHOICE,
                   sq_choices = [(''C'', True), (''D'', True), (''E'', False)]\<rparr>"

definition entry :: "ident \<Rightarrow> ident list \<Rightarrow> AnswerEntry" where
  "entry q cs = \<lparr>questionId = q, choiceIds = Some cs\<rparr>"

text \<open>A multiple-choice question with no choice flagged correct.\<close>

definition malformed_q :: SelQuestion where
  "malformed_q = \<lparr>sq_id = ''q3'', sq_type = MULTIPLE_CHOICE, sq_choices = [(''F'', False), (''G'', False)]\<rparr>"

text \<open>An administrator's request, and a user's.\<close>

definition admin_env :: Env where
  "admin_env = \<lparr>auth = Some ''admin'', rl_ok = True, now = 10, newId = ''t2''\<rparr>"

definition scenario_env :: Env where
  "scenario_env = \<lparr>auth = Some ''u1'', rl_ok = True, now = 10, newId = ''t2''\<rparr>"

text \<open>
  The same store after the attempt has been submitted with the right answer to the first
  question, and a few requests of the same user: a save and a submit that still name the
  submitted attempt, and a save without hint.
\<close>

definition finished_attempt :: Attempt where
  "finished_attempt =
     \<lparr>at_id = ''t1'', at_status = SUBMITTED, at_attemptNo = 1, at_startedAt = 5,
      at_submittedAt = Some 7, at_score = Some 1, at_userId = ''u1'', at_quizId = ''z1''\<rparr>"

definition finished_store :: Store where
  "finished_store =
     scenario_store
       \<lparr>attempt_rows := [finished_attempt],
        answer_rows := [\<lparr>an_attemptId = ''t1'', an_questionId = ''q1'', an_choices = {''A''}\<rparr>]\<rparr>"

definition stale_body :: Body where
  "stale_body = \<lparr>quizId = ''z1'', attemptId = Some ''t1'', answers = [entry ''q1'' [''B'']]\<rparr>"

definition plain_body :: Body where
  "plain_body = \<lparr>quizId = ''z1'', attemptId = None, answers = [entry ''q1'' [''A'']]\<rparr>"

definition demo_requests :: "Request list" where
  "demo_requests =
     [Save scenario_env (Some stale_body),
      Submit (scenario_env\<lparr>newId := ''t3''\<rparr>) (Some stale_body),
      Save (scenario_env\<lparr>newId := ''t4''\<rparr>) (Some plain_body)]"

definition second_attempt :: Attempt where
  "second_attempt =
     \<lparr>at_id = ''t2'', at_status = SUBMITTED, at_attemptNo = 2, at_startedAt = 10,
      at_submittedAt = Some 10, at_score = Some 1, at_userId = ''u1'', at_quizId = ''z1''\<rparr>"

definition first_attempt :: Attempt where
  "first_attempt =
     \<lparr>at_id = ''t1'', at_status = IN_PROGRESS, at_attemptNo = 1, at_startedAt = 5,
      at_submittedAt = None, at_score = None, at_userId = ''u1'', at_quizId = ''z1''\<rparr>"



text \<open>A draft of the user, and the store after it has been saved into the attempt in progress.\<close>

definition draft_body :: Body where
  "draft_body =
     \<lparr>quizId = ''z1'', attemptId = Some ''t1'',
      answers = [entry ''q1'' [''B''], entry ''q2'' [''D'', ''C'', ''D'']]\<rparr>"

definition drafted_store :: Store where
  "drafted_store =
     scenario_store
       \<lparr>answer_rows :=
          [\<lparr>an_attemptId = ''t1'', an_questionId = ''q1'', an_choices = {''B''}\<rparr>,
           \<lparr>an_attemptId = ''t1'', an_questionId = ''q2'', an_choices = {''C'', ''D''}\<rparr>]\<rparr>"

section \<open>Facts about lists and the set model\<close>

lemma find_Some_mem: "find P xs = Some x \<Longrightarrow> x \<in> set xs \<and> P x"
  by (induction xs) (auto split: if_splits)

lemma distinct_map_eq: "distinct (map f xs) \<Longrightarrow> x \<in> set xs \<Longrightarrow> y \<in> set xs \<Longrightarrow> f x = f y \<Longrightarrow> x = y"
  by (meson distinct_map inj_onD)

lemma set_foldl_Set_add: "set (foldl Set_add acc xs) = set acc \<union> set xs"
  by (induction xs arbitrary: acc) (auto simp: Set_add_def)

lemma distinct_foldl_Set_add: "distinct acc \<Longrightarrow> distinct (foldl Set_add acc xs)"
  by (induction xs arbitrary: acc) (auto simp: Set_add_def)

lemma set_new_Set: "set (new_Set xs) = set xs"
  by (simp add: new_Set_def set_foldl_Set_add)

lemma distinct_new_Set: "distinct (new_Set xs)"
  by (simp add: new_Set_def distinct_foldl_Set_add)

lemma length_new_Set: "length (new_Set xs) = card (set xs)"
  using distinct_card [OF distinct_new_Set, of xs] by (simp add: set_new_Set)

lemma distinct_submitted_of: "distinct (submitted_of a)"
  by (simp add: submitted_of_def distinct_new_Set)

lemma distinct_correct_of: "distinct (correct_of q)"
  by (simp add: correct_of_def distinct_new_Set)

lemma set_submitted_of: "set (submitted_of a) = submitted_set a"
  by (simp add: submitted_of_def submitted_set_def set_new_Set Boolean_def)

lemma set_correct_of: "set (correct_of q) = correct_set q"
  by (simp add: correct_of_def correct_set_def set_new_Set)

lemma set_validChoiceIds_of: "set (validChoiceIds_of q) = valid_set q"
  by (simp add: validChoiceIds_of_def valid_set_def set_new_Set)

lemma length_submitted_of: "length (submitted_of a) = card (submitted_set a)"
  using distinct_card [OF distinct_submitted_of, of a] by (simp add: set_submitted_of)

lemma length_correct_of: "length (correct_of q) = card (correct_set q)"
  using distinct_card [OF distinct_correct_of, of q] by (simp add: set_correct_of)

lemma isCorrect_single:
  "isCorrect SINGLE_CHOICE (submitted_of a) (correct_of q) =
     (card (submitted_set a) = 1 \<and> submitted_set a \<subseteq> correct_set q \<and> card (correct_set q) = 1)"
proof (cases "submitted_of a")
  case Nil
  then have "length (submitted_of a) = 0" by simp
  then have "card (submitted_set a) = 0" by (simp add: length_submitted_of)
  with Nil show ?thesis by (simp add: isCorrect_def)
next
  case (Cons c rest)
  show ?thesis
  proof (cases rest)
    case Nil
    with Cons have one: "submitted_of a = [c]" by simp
    then have "set (submitted_of a) = {c}" by simp
    then have s: "submitted_set a = {c}" by (simp add: set_submitted_of)
    show ?thesis
      by (simp add: isCorrect_def one s length_correct_of set_correct_of)
  next
    case (Cons d rest')
    with \<open>submitted_of a = c # rest\<close> have "length (submitted_of a) \<noteq> 1" by simp
    then show ?thesis by (simp add: isCorrect_def length_submitted_of)
  qed
qed

lemma isCorrect_multiple:
  "isCorrect MULTIPLE_CHOICE (submitted_of a) (correct_of q) =
     (card (submitted_set a) = card (correct_set q) \<and> correct_set q \<subseteq> submitted_set a)"
  by (auto simp: isCorrect_def length_submitted_of length_correct_of list_all_iff
        set_submitted_of set_correct_of)

lemma card_subset_set_equal:
  "(card (submitted_set a) = card (correct_set q) \<and> correct_set q \<subseteq> submitted_set a) =
   (submitted_set a = correct_set q)"
proof -
  have "finite (submitted_set a)" by (simp add: submitted_set_def)
  then show ?thesis by (metis card_subset_eq order_refl)
qed

lemma score_loop_step:
  assumes "byQuestionId qs (questionId a) = Some q" and "submitted_set a \<subseteq> valid_set q"
  shows "score_loop qs (a # rest) sc =
         score_loop qs rest
           (if isCorrect (sq_type q) (submitted_of a) (correct_of q) then sc + 1 else sc)"
  using assms by (auto simp: list_ex_iff Let_def set_submitted_of set_validChoiceIds_of)

section \<open>Writes to the Answer table\<close>

lemma answer_is_key: "answer_is aid q r = (answer_key r = (aid, q))"
  by (auto simp: answer_is_def answer_key_def)

lemma answer_key_set_choices [simp]: "answer_key (set_choices aid q cs r) = answer_key r"
  by (simp add: set_choices_def answer_key_def)

lemma answer_is_set_choices [simp]: "answer_is a' q' (set_choices aid q cs r) = answer_is a' q' r"
  by (simp add: answer_is_key)

lemma an_attemptId_set_choices [simp]: "an_attemptId (set_choices aid q cs r) = an_attemptId r"
  by (simp add: set_choices_def)

lemma set_choices_hit: "answer_is aid q r \<Longrightarrow> an_choices (set_choices aid q cs r) = set cs"
  by (simp add: set_choices_def)

lemma set_choices_miss: "\<not> answer_is aid q r \<Longrightarrow> set_choices aid q cs r = r"
  by (simp add: set_choices_def)

lemma answer_upsert_update:
  assumes "answer_upsert aid q cs s = Inr s'" and "list_ex (answer_is aid q) (answer_rows s)"
  shows "connect_ok s cs \<and> s' = s\<lparr>answer_rows := map (set_choices aid q cs) (answer_rows s)\<rparr>"
  using assms by (auto simp: answer_upsert_def answer_update_set_def split: if_splits)

lemma answer_upsert_create:
  assumes "answer_upsert aid q cs s = Inr s'" and "\<not> list_ex (answer_is aid q) (answer_rows s)"
  shows "connect_ok s cs \<and>
         s' = s\<lparr>answer_rows := answer_rows s @
                [\<lparr>an_attemptId = aid, an_questionId = q, an_choices = set cs\<rparr>]\<rparr>"
  using assms by (auto simp: answer_upsert_def answer_create_def split: if_splits)

lemma answer_upsert_connect_ok: "answer_upsert aid q cs s = Inr s' \<Longrightarrow> connect_ok s cs"
  using answer_upsert_update answer_upsert_create by blast

lemma answer_upsert_others:
  assumes "answer_upsert aid q cs s = Inr s'"
  shows "s' = s\<lparr>answer_rows := answer_rows s'\<rparr>"
proof (cases "list_ex (answer_is aid q) (answer_rows s)")
  case True
  from answer_upsert_update [OF assms True] show ?thesis by simp
next
  case False
  from answer_upsert_create [OF assms False] show ?thesis by simp
qed

lemma new_row_is: "answer_is aid q \<lparr>an_attemptId = aid, an_questionId = q, an_choices = x\<rparr>"
  by (simp add: answer_is_def)

lemma answer_upsert_exists:
  assumes "answer_upsert aid q cs s = Inr s'"
  shows "list_ex (answer_is aid q) (answer_rows s')"
proof (cases "list_ex (answer_is aid q) (answer_rows s)")
  case True
  from answer_upsert_update [OF assms True]
  have "answer_rows s' = map (set_choices aid q cs) (answer_rows s)" by simp
  with True show ?thesis by (simp add: list_ex_iff)
next
  case False
  from answer_upsert_create [OF assms False]
  have "answer_rows s' = answer_rows s @ [\<lparr>an_attemptId = aid, an_questionId = q, an_choices = set cs\<rparr>]"
    by simp
  then show ?thesis by (simp add: list_ex_iff new_row_is)
qed

lemma answer_upsert_choices:
  assumes "answer_upsert aid q cs s = Inr s'" and "r \<in> set (answer_rows s')" and "answer_is aid q r"
  shows "an_choices r = set cs"
proof (cases "list_ex (answer_is aid q) (answer_rows s)")
  case True
  from answer_upsert_update [OF assms(1) True]
  have "answer_rows s' = map (set_choices aid q cs) (answer_rows s)" by simp
  with assms(2) obtain r0 where r0: "r0 \<in> set (answer_rows s)" "r = set_choices aid q cs r0" by auto
  with assms(3) have "answer_is aid q r0" by simp
  with r0 show ?thesis by (simp add: set_choices_hit)
next
  case False
  from answer_upsert_create [OF assms(1) False]
  have "answer_rows s' = answer_rows s @ [\<lparr>an_attemptId = aid, an_questionId = q, an_choices = set cs\<rparr>]"
    by simp
  with assms(2) have "r \<in> set (answer_rows s) \<or> r = \<lparr>an_attemptId = aid, an_questionId = q, an_choices = set cs\<rparr>"
    by auto
  moreover from False assms(3) have "r \<notin> set (answer_rows s)" by (auto simp: list_ex_iff)
  ultimately show ?thesis by auto
qed

lemma filter_map_unchanged:
  assumes "\<And>r. P (f r) = P r" and "\<And>r. P r \<Longrightarrow> f r = r"
  shows "filter P (map f xs) = filter P xs"
  using assms by (induction xs) auto

lemma answer_upsert_frame:
  assumes "answer_upsert aid q cs s = Inr s'"
    and inv: "\<And>r x. P (r\<lparr>an_choices := x\<rparr>) = P r"
    and miss: "\<And>r. P r \<Longrightarrow> \<not> answer_is aid q r"
  shows "filter P (answer_rows s') = filter P (answer_rows s)"
proof (cases "list_ex (answer_is aid q) (answer_rows s)")
  case True
  from answer_upsert_update [OF assms(1) True]
  have eq: "answer_rows s' = map (set_choices aid q cs) (answer_rows s)" by simp
  have "filter P (map (set_choices aid q cs) (answer_rows s)) = filter P (answer_rows s)"
  proof (rule filter_map_unchanged)
    show "P (set_choices aid q cs r) = P r" for r by (simp add: set_choices_def inv)
    show "P r \<Longrightarrow> set_choices aid q cs r = r" for r using miss by (simp add: set_choices_miss)
  qed
  with eq show ?thesis by simp
next
  case False
  from answer_upsert_create [OF assms(1) False]
  have eq: "answer_rows s' = answer_rows s @ [\<lparr>an_attemptId = aid, an_questionId = q, an_choices = set cs\<rparr>]"
    by simp
  have "\<not> P \<lparr>an_attemptId = aid, an_questionId = q, an_choices = set cs\<rparr>"
    using miss new_row_is by blast
  with eq show ?thesis by simp
qed

lemma answer_upsert_keys:
  assumes "answer_upsert aid q cs s = Inr s'"
  shows "map answer_key (answer_rows s') = map answer_key (answer_rows s)
         \<or> (map answer_key (answer_rows s') = map answer_key (answer_rows s) @ [(aid, q)]
             \<and> (aid, q) \<notin> set (map answer_key (answer_rows s)))"
proof (cases "list_ex (answer_is aid q) (answer_rows s)")
  case True
  from answer_upsert_update [OF assms True]
  have "answer_rows s' = map (set_choices aid q cs) (answer_rows s)" by simp
  then show ?thesis by simp
next
  case False
  from answer_upsert_create [OF assms False]
  have "answer_rows s' = answer_rows s @ [\<lparr>an_attemptId = aid, an_questionId = q, an_choices = set cs\<rparr>]"
    by simp
  then have "map answer_key (answer_rows s') = map answer_key (answer_rows s) @ [(aid, q)]"
    by (simp add: answer_key_def)
  moreover from False have "(aid, q) \<notin> set (map answer_key (answer_rows s))"
    by (auto simp: list_ex_iff answer_is_key)
  ultimately show ?thesis by blast
qed

lemma answer_upsert_unique:
  assumes "answer_upsert aid q cs s = Inr s'" and "unique_answers s"
  shows "unique_answers s'"
  using answer_upsert_keys [OF assms(1)] assms(2)
  by (auto simp: unique_answers_def)

lemma list_ex_key: "list_ex (answer_is aid q) rows = ((aid, q) \<in> answer_key ` set rows)"
  by (force simp: list_ex_iff answer_is_key)

lemma answer_upsert_key_set:
  assumes "answer_upsert aid q cs s = Inr s'"
  shows "answer_key ` set (answer_rows s) \<subseteq> answer_key ` set (answer_rows s')"
proof -
  from answer_upsert_keys [OF assms]
  consider (same) "map answer_key (answer_rows s') = map answer_key (answer_rows s)"
    | (more) "map answer_key (answer_rows s') = map answer_key (answer_rows s) @ [(aid, q)]"
    by blast
  then have "set (map answer_key (answer_rows s)) \<subseteq> set (map answer_key (answer_rows s'))"
  proof cases
    case same
    then show ?thesis by (simp only: subset_refl)
  next
    case more
    then show ?thesis by (simp only: set_append) blast
  qed
  then show ?thesis by simp
qed

lemma answer_upsert_keeps_rows:
  assumes "answer_upsert aid q cs s = Inr s'" and "list_ex (answer_is aid' q') (answer_rows s)"
  shows "list_ex (answer_is aid' q') (answer_rows s')"
  using answer_upsert_key_set [OF assms(1)] assms(2) unfolding list_ex_key by blast

section \<open>The loop of upserts\<close>

lemma upsert_answers_Cons:
  assumes "upsert_answers aid (e # rest) s = Inr s'"
  obtains s1 where "answer_upsert aid (questionId e) (or_empty (choiceIds e)) s = Inr s1"
    and "upsert_answers aid rest s1 = Inr s'"
  using assms by (auto split: sum.splits)

lemma upsert_answers_others:
  "upsert_answers aid es s = Inr s' \<Longrightarrow> s' = s\<lparr>answer_rows := answer_rows s'\<rparr>"
proof (induction es arbitrary: s)
  case Nil
  then show ?case by simp
next
  case (Cons e rest)
  from Cons.prems obtain s1 where 1: "answer_upsert aid (questionId e) (or_empty (choiceIds e)) s = Inr s1"
    and 2: "upsert_answers aid rest s1 = Inr s'"
    by (rule upsert_answers_Cons)
  have a: "s1 = s\<lparr>answer_rows := answer_rows s1\<rparr>" by (rule answer_upsert_others [OF 1])
  have b: "s' = s1\<lparr>answer_rows := answer_rows s'\<rparr>" by (rule Cons.IH [OF 2])
  have "s' = (s\<lparr>answer_rows := answer_rows s1\<rparr>)\<lparr>answer_rows := answer_rows s'\<rparr>"
    using a b by simp
  then show ?case by simp
qed

lemma upsert_answers_frame:
  assumes "upsert_answers aid es s = Inr s'"
    and inv: "\<And>r x. P (r\<lparr>an_choices := x\<rparr>) = P r"
    and miss: "\<And>r e. P r \<Longrightarrow> e \<in> set es \<Longrightarrow> \<not> answer_is aid (questionId e) r"
  shows "filter P (answer_rows s') = filter P (answer_rows s)"
  using assms(1) miss
proof (induction es arbitrary: s)
  case Nil
  then show ?case by simp
next
  case (Cons e rest)
  from Cons.prems(1) obtain s1 where 1: "answer_upsert aid (questionId e) (or_empty (choiceIds e)) s = Inr s1"
    and 2: "upsert_answers aid rest s1 = Inr s'"
    by (rule upsert_answers_Cons)
  have "filter P (answer_rows s1) = filter P (answer_rows s)"
    by (rule answer_upsert_frame [OF 1 inv]) (use Cons.prems(2) in auto)
  moreover have "filter P (answer_rows s') = filter P (answer_rows s1)"
    by (rule Cons.IH [OF 2]) (use Cons.prems(2) in auto)
  ultimately show ?case by simp
qed

lemma upsert_answers_unique:
  "upsert_answers aid es s = Inr s' \<Longrightarrow> unique_answers s \<Longrightarrow> unique_answers s'"
proof (induction es arbitrary: s)
  case Nil
  then show ?case by simp
next
  case (Cons e rest)
  from Cons.prems(1) obtain s1 where 1: "answer_upsert aid (questionId e) (or_empty (choiceIds e)) s = Inr s1"
    and 2: "upsert_answers aid rest s1 = Inr s'"
    by (rule upsert_answers_Cons)
  from answer_upsert_unique [OF 1 Cons.prems(2)] Cons.IH [OF 2] show ?case by blast
qed

lemma upsert_answers_keeps_rows:
  "upsert_answers aid es s = Inr s' \<Longrightarrow> list_ex (answer_is aid' q') (answer_rows s)
   \<Longrightarrow> list_ex (answer_is aid' q') (answer_rows s')"
proof (induction es arbitrary: s)
  case Nil
  then show ?case by simp
next
  case (Cons e rest)
  from Cons.prems(1) obtain s1 where 1: "answer_upsert aid (questionId e) (or_empty (choiceIds e)) s = Inr s1"
    and 2: "upsert_answers aid rest s1 = Inr s'"
    by (rule upsert_answers_Cons)
  from answer_upsert_keeps_rows [OF 1 Cons.prems(2)] Cons.IH [OF 2] show ?case by blast
qed

section \<open>Creation and finalization of attempts\<close>

lemma answer_create_upsert:
  "answer_create aid q cs s = Inr s' \<Longrightarrow> answer_upsert aid q cs s = Inr s'"
  by (auto simp: answer_upsert_def answer_create_def split: if_splits)

lemma create_answers_upsert:
  "create_answers aid es s = Inr s' \<Longrightarrow> upsert_answers aid es s = Inr s'"
proof (induction es arbitrary: s)
  case Nil
  then show ?case by simp
next
  case (Cons e rest)
  from Cons.prems obtain s1 where 1: "answer_create aid (questionId e) (or_empty (choiceIds e)) s = Inr s1"
    and 2: "create_answers aid rest s1 = Inr s'"
    by (auto split: sum.splits)
  from answer_create_upsert [OF 1] Cons.IH [OF 2] show ?case by simp
qed

lemma attempt_create_ok:
  assumes "attempt_create a es s = Inr s'"
  shows "at_id a \<notin> at_id ` set (attempt_rows s)"
    and "\<forall>b \<in> set (attempt_rows s).
           \<not> (at_userId b = at_userId a \<and> at_quizId b = at_quizId a \<and> at_attemptNo b = at_attemptNo a)"
    and "upsert_answers (at_id a) es (s\<lparr>attempt_rows := attempt_rows s @ [a]\<rparr>) = Inr s'"
proof -
  from assms have c: "create_answers (at_id a) es (s\<lparr>attempt_rows := attempt_rows s @ [a]\<rparr>) = Inr s'"
    and i: "\<not> list_ex (\<lambda>b. at_id b = at_id a) (attempt_rows s)"
    and n: "\<not> list_ex (\<lambda>b. at_userId b = at_userId a \<and> at_quizId b = at_quizId a
                            \<and> at_attemptNo b = at_attemptNo a) (attempt_rows s)"
    by (auto simp: attempt_create_def split: if_splits)
  from i show "at_id a \<notin> at_id ` set (attempt_rows s)" by (auto simp: list_ex_iff)
  from n show "\<forall>b \<in> set (attempt_rows s).
           \<not> (at_userId b = at_userId a \<and> at_quizId b = at_quizId a \<and> at_attemptNo b = at_attemptNo a)"
    by (auto simp: list_ex_iff)
  from c show "upsert_answers (at_id a) es (s\<lparr>attempt_rows := attempt_rows s @ [a]\<rparr>) = Inr s'"
    by (rule create_answers_upsert)
qed

lemma attempt_create_rows:
  assumes "attempt_create a es s = Inr s'"
  shows "attempt_rows s' = attempt_rows s @ [a]"
proof -
  from upsert_answers_others [OF attempt_create_ok(3) [OF assms]]
  have "s' = (s\<lparr>attempt_rows := attempt_rows s @ [a]\<rparr>)\<lparr>answer_rows := answer_rows s'\<rparr>" .
  then have "attempt_rows s' = attempt_rows ((s\<lparr>attempt_rows := attempt_rows s @ [a]\<rparr>)\<lparr>answer_rows := answer_rows s'\<rparr>)"
    by simp
  then show ?thesis by simp
qed

lemma attempt_create_answers_frame:
  assumes "attempt_create a es s = Inr s'"
    and "\<And>r x. P (r\<lparr>an_choices := x\<rparr>) = P r"
    and "\<And>r. P r \<Longrightarrow> an_attemptId r \<noteq> at_id a"
  shows "filter P (answer_rows s') = filter P (answer_rows s)"
proof -
  have "filter P (answer_rows s') = filter P (answer_rows (s\<lparr>attempt_rows := attempt_rows s @ [a]\<rparr>))"
    by (rule upsert_answers_frame [OF attempt_create_ok(3) [OF assms(1)] assms(2)])
       (use assms(3) in \<open>auto simp: answer_is_def\<close>)
  then show ?thesis by simp
qed

lemma attempt_update_finalize_ok:
  assumes "attempt_update_finalize aid t sc s = Inr (a, s')"
  shows "s' = s\<lparr>attempt_rows := map (\<lambda>b. if at_id b = aid then finalize t sc b else b) (attempt_rows s)\<rparr>"
    and "\<exists>b \<in> set (attempt_rows s). at_id b = aid \<and> a = finalize t sc b"
proof -
  from assms obtain b where b: "find (\<lambda>a. at_id a = aid) (attempt_rows s) = Some b"
    and a: "a = finalize t sc b"
    and s: "s' = s\<lparr>attempt_rows := map (\<lambda>b. if at_id b = aid then finalize t sc b else b) (attempt_rows s)\<rparr>"
    by (auto simp: attempt_update_finalize_def split: option.splits)
  from s show "s' = s\<lparr>attempt_rows := map (\<lambda>b. if at_id b = aid then finalize t sc b else b) (attempt_rows s)\<rparr>" .
  from find_Some_mem [OF b] a show "\<exists>b \<in> set (attempt_rows s). at_id b = aid \<and> a = finalize t sc b"
    by blast
qed

lemma finalize_fields [simp]:
  "at_id (finalize t sc a) = at_id a"
  "at_userId (finalize t sc a) = at_userId a"
  "at_quizId (finalize t sc a) = at_quizId a"
  "at_attemptNo (finalize t sc a) = at_attemptNo a"
  "at_startedAt (finalize t sc a) = at_startedAt a"
  "at_status (finalize t sc a) = SUBMITTED"
  "at_score (finalize t sc a) = Some sc"
  "at_submittedAt (finalize t sc a) = Some t"
  by (simp_all add: finalize_def)

section \<open>Attempt resolution\<close>

lemma newest_mem: "newest xs = Some x \<Longrightarrow> x \<in> set xs"
  by (induction xs arbitrary: x) (auto split: option.splits if_splits)



lemma attempt_findFirst_hint_Some:
  assumes "attempt_findFirst_hint s h uid qz = Some x"
  shows "x \<in> set (attempt_rows s) \<and> at_id x = h \<and> in_progress_of uid qz x"
  using find_Some_mem [OF assms [unfolded attempt_findFirst_hint_def]]
  by (simp add: in_progress_of_def)

lemma attempt_findFirst_latest_Some:
  assumes "attempt_findFirst_latest s uid qz = Some x"
  shows "x \<in> set (attempt_rows s) \<and> in_progress_of uid qz x"
  using newest_mem [OF assms [unfolded attempt_findFirst_latest_def]]
  by (simp add: in_progress_of_def)

lemma save_resolve_Some:
  assumes "save_resolve s uid body = Some x"
  shows "x \<in> set (attempt_rows s) \<and> in_progress_of uid (quizId body) x"
  using assms attempt_findFirst_hint_Some attempt_findFirst_latest_Some
  by (auto simp: save_resolve_def split: option.splits if_splits)

lemma submit_resolve_Some:
  assumes "submit_resolve s uid body = Some x"
  shows "x \<in> set (attempt_rows s) \<and> in_progress_of uid (quizId body) x"
  using assms attempt_findFirst_hint_Some
  by (auto simp: submit_resolve_def split: option.splits if_splits)

section \<open>The shape of a handled request\<close>

lemma save_tx_cases:
  assumes "save_tx uid env body s = Inr (r, s')"
  obtains (resolved) x where "save_resolve s uid body = Some x"
      and "upsert_answers (at_id x) (answers body) s = Inr s'"
      and "r = \<lparr>so_attemptId = at_id x, so_attemptNo = at_attemptNo x\<rparr>"
  | (created) "save_resolve s uid body = None"
      and "attempt_create
             \<lparr>at_id = newId env, at_status = IN_PROGRESS,
              at_attemptNo = next_attemptNo s uid (quizId body),
              at_startedAt = now env, at_submittedAt = None, at_score = None,
              at_userId = uid, at_quizId = quizId body\<rparr> (answers body) s = Inr s'"
      and "r = \<lparr>so_attemptId = newId env, so_attemptNo = next_attemptNo s uid (quizId body)\<rparr>"
  using assms
  by (auto simp: save_tx_def Let_def split: option.splits sum.splits)

lemma submit_tx_cases:
  assumes "submit_tx uid env body score s = Inr (r, s')"
  obtains (resolved) x s1 where "submit_resolve s uid body = Some x"
      and "upsert_answers (at_id x) (answers body) s = Inr s1"
      and "s' = s1\<lparr>attempt_rows :=
                   map (\<lambda>b. if at_id b = at_id x then finalize (now env) score b else b) (attempt_rows s1)\<rparr>"
      and "\<exists>b \<in> set (attempt_rows s). at_id b = at_id x \<and> r = (at_id x, score, at_attemptNo b)"
  | (created) "submit_resolve s uid body = None"
      and "attempt_create
             \<lparr>at_id = newId env, at_status = SUBMITTED,
              at_attemptNo = next_attemptNo s uid (quizId body),
              at_startedAt = now env, at_submittedAt = Some (now env), at_score = Some score,
              at_userId = uid, at_quizId = quizId body\<rparr> (answers body) s = Inr s'"
      and "r = (newId env, score, next_attemptNo s uid (quizId body))"
proof (cases "submit_resolve s uid body")
  case None
  with assms that(2) show ?thesis
    by (auto simp: submit_tx_def Let_def split: sum.splits)
next
  case (Some x)
  with assms obtain s1 fin where u: "upsert_answers (at_id x) (answers body) s = Inr s1"
    and f: "attempt_update_finalize (at_id x) (now env) score s1 = Inr (fin, s')"
    and r: "r = (at_id fin, score, at_attemptNo fin)"
    by (auto simp: submit_tx_def split: sum.splits)
  from attempt_update_finalize_ok [OF f] obtain b where
    s': "s' = s1\<lparr>attempt_rows :=
                   map (\<lambda>b. if at_id b = at_id x then finalize (now env) score b else b) (attempt_rows s1)\<rparr>"
    and b: "b \<in> set (attempt_rows s1)" "at_id b = at_id x" "fin = finalize (now env) score b"
    by blast
  from upsert_answers_others [OF u] have "attempt_rows s1 = attempt_rows (s\<lparr>answer_rows := answer_rows s1\<rparr>)"
    by simp
  then have "attempt_rows s1 = attempt_rows s" by simp
  with b r have "\<exists>b \<in> set (attempt_rows s). at_id b = at_id x \<and> r = (at_id x, score, at_attemptNo b)"
    by auto
  with that(1) [OF Some u s'] show ?thesis by blast
qed

lemma save_POST_cases:
  obtains (failed) f where "save_POST env req s = (Inl f, s)"
  | (handled) uid body r s' where "auth env = Some uid" and "req = Some body"
      and "save_tx uid env body s = Inr (r, s')" and "save_POST env req s = (Inr r, s')"
proof (cases "\<exists>f. save_POST env req s = (Inl f, s)")
  case True
  then show ?thesis using failed by blast
next
  case False
  then obtain uid body where a: "auth env = Some uid" and b: "req = Some body"
    by (auto simp: save_POST_def split: option.splits if_splits)
  show ?thesis
  proof (cases "save_tx uid env body s")
    case (Inl e)
    with a b False show ?thesis
      by (auto simp: save_POST_def transaction_def split: option.splits if_splits)
  next
    case (Inr p)
    obtain r s' where p: "p = (r, s')" by (cases p)
    with a b False Inr have "save_POST env req s = (Inr r, s')"
      by (auto simp: save_POST_def transaction_def split: option.splits if_splits)
    with a b Inr p handled show ?thesis by blast
  qed
qed

lemma submit_POST_cases:
  obtains (failed) f where "submit_POST env req s = (Inl f, s)"
  | (handled) uid body score i n s' where "auth env = Some uid" and "req = Some body"
      and "score_loop (question_findMany s (quizId body)) (answers body) 0 = Inr score"
      and "submit_tx uid env body score s = Inr ((i, score, n), s')"
      and "submit_POST env req s =
           (Inr \<lparr>sb_id = i, sb_score = score, sb_attemptNo = n,
                 sb_totalQuestions = length (question_findMany s (quizId body))\<rparr>, s')"
proof (cases "\<exists>f. submit_POST env req s = (Inl f, s)")
  case True
  then show ?thesis using failed by blast
next
  case False
  then obtain uid body where a: "auth env = Some uid" and b: "req = Some body"
    by (auto simp: submit_POST_def split: option.splits if_splits)
  from False a b obtain score where
    sc: "score_loop (question_findMany s (quizId body)) (answers body) 0 = Inr score"
    by (cases "score_loop (question_findMany s (quizId body)) (answers body) 0")
       (auto simp: submit_POST_def Let_def split: option.splits if_splits)
  show ?thesis
  proof (cases "submit_tx uid env body score s")
    case (Inl e)
    with a b sc False show ?thesis
      by (auto simp: submit_POST_def transaction_def Let_def split: option.splits if_splits)
  next
    case (Inr p)
    obtain i sc' n s' where p: "p = ((i, sc', n), s')" by (cases p) auto
    from Inr p have tx: "submit_tx uid env body score s = Inr ((i, sc', n), s')" by simp
    then have "sc' = score" by (rule submit_tx_cases) auto
    with p have p': "p = ((i, score, n), s')" by simp
    with a b sc False Inr have "submit_POST env req s =
           (Inr \<lparr>sb_id = i, sb_score = score, sb_attemptNo = n,
                 sb_totalQuestions = length (question_findMany s (quizId body))\<rparr>, s')"
      by (auto simp: submit_POST_def transaction_def Let_def split: option.splits if_splits)
    with a b sc Inr p' handled show ?thesis by blast
  qed
qed

section \<open>The effect of one request on the attempts\<close>

lemma upsert_answers_attempt_rows:
  assumes "upsert_answers aid es s = Inr s'"
  shows "attempt_rows s' = attempt_rows s"
proof -
  from upsert_answers_others [OF assms]
  have "attempt_rows s' = attempt_rows (s\<lparr>answer_rows := answer_rows s'\<rparr>)" by simp
  then show ?thesis by simp
qed

lemma upsert_answers_other_attempts:
  assumes "upsert_answers aid es s = Inr s'" and "aid' \<noteq> aid"
  shows "filter (\<lambda>r. an_attemptId r = aid') (answer_rows s') =
         filter (\<lambda>r. an_attemptId r = aid') (answer_rows s)"
  by (rule upsert_answers_frame [OF assms(1)]) (use assms(2) in \<open>auto simp: answer_is_def\<close>)

lemma save_tx_effect:
  assumes "save_tx uid env body s = Inr (r, s')"
  obtains (drafted) x where "x \<in> set (attempt_rows s)" and "at_status x = IN_PROGRESS"
      and "attempt_rows s' = attempt_rows s"
      and "\<And>aid. aid \<noteq> at_id x \<Longrightarrow>
             filter (\<lambda>r. an_attemptId r = aid) (answer_rows s') =
             filter (\<lambda>r. an_attemptId r = aid) (answer_rows s)"
  | (created) a where "attempt_rows s' = attempt_rows s @ [a]"
      and "at_id a \<notin> at_id ` set (attempt_rows s)"
      and "at_attemptNo a = next_attemptNo s (at_userId a) (at_quizId a)"
      and "\<And>aid. aid \<noteq> at_id a \<Longrightarrow>
             filter (\<lambda>r. an_attemptId r = aid) (answer_rows s') =
             filter (\<lambda>r. an_attemptId r = aid) (answer_rows s)"
  using assms
proof (cases rule: save_tx_cases)
  case (resolved x)
  from save_resolve_Some [OF resolved(1)]
  have "x \<in> set (attempt_rows s)" and "at_status x = IN_PROGRESS"
    by (simp_all add: in_progress_of_def)
  moreover have "attempt_rows s' = attempt_rows s"
    by (rule upsert_answers_attempt_rows [OF resolved(2)])
  moreover have "filter (\<lambda>r. an_attemptId r = aid) (answer_rows s') =
             filter (\<lambda>r. an_attemptId r = aid) (answer_rows s)" if "aid \<noteq> at_id x" for aid
    by (rule upsert_answers_other_attempts [OF resolved(2) that])
  ultimately show ?thesis by (rule drafted)
next
  case created
  let ?a = "\<lparr>at_id = newId env, at_status = IN_PROGRESS,
              at_attemptNo = next_attemptNo s uid (quizId body),
              at_startedAt = now env, at_submittedAt = None, at_score = None,
              at_userId = uid, at_quizId = quizId body\<rparr>"
  have "attempt_rows s' = attempt_rows s @ [?a]" by (rule attempt_create_rows [OF created(2)])
  moreover have "at_id ?a \<notin> at_id ` set (attempt_rows s)" by (rule attempt_create_ok(1) [OF created(2)])
  moreover have "at_attemptNo ?a = next_attemptNo s (at_userId ?a) (at_quizId ?a)" by simp
  moreover have "filter (\<lambda>r. an_attemptId r = aid) (answer_rows s') =
             filter (\<lambda>r. an_attemptId r = aid) (answer_rows s)" if "aid \<noteq> at_id ?a" for aid
    by (rule attempt_create_answers_frame [OF created(2)]) (use that in auto)
  ultimately show ?thesis by (rule that(2))
qed

lemma submit_tx_effect:
  assumes "submit_tx uid env body score s = Inr (r, s')"
  obtains (finalized) x where "x \<in> set (attempt_rows s)" and "at_status x = IN_PROGRESS"
      and "attempt_rows s' =
           map (\<lambda>b. if at_id b = at_id x then finalize (now env) score b else b) (attempt_rows s)"
      and "\<And>aid. aid \<noteq> at_id x \<Longrightarrow>
             filter (\<lambda>r. an_attemptId r = aid) (answer_rows s') =
             filter (\<lambda>r. an_attemptId r = aid) (answer_rows s)"
  | (created) a where "attempt_rows s' = attempt_rows s @ [a]"
      and "at_id a \<notin> at_id ` set (attempt_rows s)"
      and "at_attemptNo a = next_attemptNo s (at_userId a) (at_quizId a)"
      and "\<And>aid. aid \<noteq> at_id a \<Longrightarrow>
             filter (\<lambda>r. an_attemptId r = aid) (answer_rows s') =
             filter (\<lambda>r. an_attemptId r = aid) (answer_rows s)"
  using assms
proof (cases rule: submit_tx_cases)
  case (resolved x s1)
  from submit_resolve_Some [OF resolved(1)]
  have "x \<in> set (attempt_rows s)" and "at_status x = IN_PROGRESS"
    by (simp_all add: in_progress_of_def)
  moreover have "attempt_rows s' =
           map (\<lambda>b. if at_id b = at_id x then finalize (now env) score b else b) (attempt_rows s)"
    using resolved(3) upsert_answers_attempt_rows [OF resolved(2)] by simp
  moreover have "filter (\<lambda>r. an_attemptId r = aid) (answer_rows s') =
             filter (\<lambda>r. an_attemptId r = aid) (answer_rows s)" if "aid \<noteq> at_id x" for aid
    using resolved(3) upsert_answers_other_attempts [OF resolved(2) that] by simp
  ultimately show ?thesis by (rule finalized)
next
  case created
  let ?a = "\<lparr>at_id = newId env, at_status = SUBMITTED,
              at_attemptNo = next_attemptNo s uid (quizId body),
              at_startedAt = now env, at_submittedAt = Some (now env), at_score = Some score,
              at_userId = uid, at_quizId = quizId body\<rparr>"
  have "attempt_rows s' = attempt_rows s @ [?a]" by (rule attempt_create_rows [OF created(2)])
  moreover have "at_id ?a \<notin> at_id ` set (attempt_rows s)" by (rule attempt_create_ok(1) [OF created(2)])
  moreover have "at_attemptNo ?a = next_attemptNo s (at_userId ?a) (at_quizId ?a)" by simp
  moreover have "filter (\<lambda>r. an_attemptId r = aid) (answer_rows s') =
             filter (\<lambda>r. an_attemptId r = aid) (answer_rows s)" if "aid \<noteq> at_id ?a" for aid
    by (rule attempt_create_answers_frame [OF created(2)]) (use that in auto)
  ultimately show ?thesis by (rule that(2))
qed

lemma step_cases:
  obtains (unchanged) "step s rq = s"
  | (drafted) x where "x \<in> set (attempt_rows s)" and "at_status x = IN_PROGRESS"
      and "attempt_rows (step s rq) = attempt_rows s"
      and "\<And>aid. aid \<noteq> at_id x \<Longrightarrow>
             filter (\<lambda>r. an_attemptId r = aid) (answer_rows (step s rq)) =
             filter (\<lambda>r. an_attemptId r = aid) (answer_rows s)"
  | (finalized) x t sc where "x \<in> set (attempt_rows s)" and "at_status x = IN_PROGRESS"
      and "attempt_rows (step s rq) =
           map (\<lambda>b. if at_id b = at_id x then finalize t sc b else b) (attempt_rows s)"
      and "\<And>aid. aid \<noteq> at_id x \<Longrightarrow>
             filter (\<lambda>r. an_attemptId r = aid) (answer_rows (step s rq)) =
             filter (\<lambda>r. an_attemptId r = aid) (answer_rows s)"
  | (created) a where "attempt_rows (step s rq) = attempt_rows s @ [a]"
      and "at_id a \<notin> at_id ` set (attempt_rows s)"
      and "at_attemptNo a = next_attemptNo s (at_userId a) (at_quizId a)"
      and "\<And>aid. aid \<noteq> at_id a \<Longrightarrow>
             filter (\<lambda>r. an_attemptId r = aid) (answer_rows (step s rq)) =
             filter (\<lambda>r. an_attemptId r = aid) (answer_rows s)"
proof (cases rq)
  case (Save env req)
  show ?thesis
  proof (cases env req s rule: save_POST_cases)
    case (failed f)
    with Save have "step s rq = s" by simp
    then show ?thesis by (rule unchanged)
  next
    case (handled uid body r s')
    with Save have st: "step s rq = s'" by simp
    from handled(3) show ?thesis
    proof (cases rule: save_tx_effect)
      case (drafted x)
      then show ?thesis using that(2) [of x] st by simp
    next
      case (created a)
      then show ?thesis using that(4) [of a] st by simp
    qed
  qed
next
  case (Submit env req)
  show ?thesis
  proof (cases env req s rule: submit_POST_cases)
    case (failed f)
    with Submit have "step s rq = s" by simp
    then show ?thesis by (rule unchanged)
  next
    case (handled uid body score i n s')
    with Submit have st: "step s rq = s'" by simp
    from handled(4) show ?thesis
    proof (cases rule: submit_tx_effect)
      case (finalized x)
      then show ?thesis using that(3) [of x "now env" score] st by simp
    next
      case (created a)
      then show ?thesis using that(4) [of a] st by simp
    qed
  qed
qed

section \<open>Submitted attempts\<close>

lemma run_Cons: "run s (rq # rs) = run (step s rq) rs"
  by (simp add: run_def)

lemma run_Nil: "run s [] = s"
  by (simp add: run_def)

lemma map_finalize_ids:
  "map at_id (map (\<lambda>b. if at_id b = i then finalize t sc b else b) rows) = map at_id rows"
  by (induction rows) auto

lemma step_pk:
  assumes "pk_attempts s"
  shows "pk_attempts (step s rq)"
proof (cases rule: step_cases [of s rq])
  case unchanged
  with assms show ?thesis by simp
next
  case (drafted x)
  with assms show ?thesis by (simp add: pk_attempts_def)
next
  case (finalized x t sc)
  from finalized(3) have "map at_id (attempt_rows (step s rq)) = map at_id (attempt_rows s)"
    by (simp only: map_finalize_ids)
  with assms show ?thesis by (simp only: pk_attempts_def)
next
  case (created a)
  with assms show ?thesis by (simp add: pk_attempts_def)
qed

lemma step_keeps_final:
  assumes pk: "pk_attempts s" and a: "a \<in> set (attempt_rows s)" and st: "at_status a \<noteq> IN_PROGRESS"
  shows "a \<in> set (attempt_rows (step s rq)) \<and>
         filter (\<lambda>r. an_attemptId r = at_id a) (answer_rows (step s rq)) =
         filter (\<lambda>r. an_attemptId r = at_id a) (answer_rows s)"
proof (cases rule: step_cases [of s rq])
  case unchanged
  with a show ?thesis by simp
next
  case (drafted x)
  from drafted(2) st have "a \<noteq> x" by auto
  with pk a drafted(1) have "at_id a \<noteq> at_id x"
    using distinct_map_eq [of at_id "attempt_rows s" a x] by (auto simp: pk_attempts_def)
  with drafted(3) drafted(4) a show ?thesis by simp
next
  case (finalized x t sc)
  from finalized(2) st have "a \<noteq> x" by auto
  with pk a finalized(1) have ne: "at_id a \<noteq> at_id x"
    using distinct_map_eq [of at_id "attempt_rows s" a x] by (auto simp: pk_attempts_def)
  from a ne have "a \<in> set (map (\<lambda>b. if at_id b = at_id x then finalize t sc b else b) (attempt_rows s))"
    by force
  with finalized(3) finalized(4) [OF ne] show ?thesis by simp
next
  case (created b)
  from a have "at_id a \<in> at_id ` set (attempt_rows s)" by (rule imageI)
  with created(2) have "at_id a \<noteq> at_id b" by metis
  with created(1) created(4) a show ?thesis by simp
qed

lemma run_pk: "pk_attempts s \<Longrightarrow> pk_attempts (run s rs)"
  by (induction rs arbitrary: s) (simp_all add: run_Nil run_Cons step_pk)

lemma run_keeps_final:
  assumes "pk_attempts s" and "a \<in> set (attempt_rows s)" and "at_status a \<noteq> IN_PROGRESS"
  shows "a \<in> set (attempt_rows (run s rs)) \<and>
         filter (\<lambda>r. an_attemptId r = at_id a) (answer_rows (run s rs)) =
         filter (\<lambda>r. an_attemptId r = at_id a) (answer_rows s)"
  using assms
proof (induction rs arbitrary: s)
  case Nil
  then show ?case by (simp add: run_Nil)
next
  case (Cons rq rs)
  note k = step_keeps_final [OF Cons.prems, of rq]
  from Cons.IH [OF step_pk [OF Cons.prems(1)] k [THEN conjunct1] Cons.prems(3)] k
  show ?case by (simp add: run_Cons)
qed

section \<open>Facts about attempt numbers\<close>

lemma max_list_None: "(max_list xs = None) = (xs = [])"
  by (cases xs) (auto split: option.splits)

lemma max_list_Some: "max_list xs = Some m \<Longrightarrow> m = Max (set xs)"
proof (induction xs arbitrary: m)
  case Nil
  then show ?case by simp
next
  case (Cons x rest)
  show ?case
  proof (cases "max_list rest")
    case None
    then have "rest = []" by (simp add: max_list_None)
    with Cons.prems show ?thesis by simp
  next
    case (Some k)
    then have k: "k = Max (set rest)" by (rule Cons.IH)
    from Some have ne: "rest \<noteq> []" using max_list_None [of rest] by auto
    from Cons.prems Some have "m = max x k" by simp
    with k ne show ?thesis by simp
  qed
qed

lemma next_attemptNo_Max:
  "next_attemptNo s uid qz =
     (if attemptNos_of s uid qz = [] then 0 else Max (set (attemptNos_of s uid qz))) + 1"
proof (cases "max_list (attemptNos_of s uid qz)")
  case None
  then show ?thesis
    by (simp add: next_attemptNo_def attempt_aggregate_max_def attemptNos_of_def max_list_None)
next
  case (Some m)
  from max_list_Some [OF Some] Some max_list_None [of "attemptNos_of s uid qz"] show ?thesis
    by (auto simp: next_attemptNo_def attempt_aggregate_max_def attemptNos_of_def)
qed

lemma next_attemptNo_greater:
  assumes "n \<in> set (attemptNos_of s uid qz)"
  shows "n < next_attemptNo s uid qz"
proof -
  from assms have "attemptNos_of s uid qz \<noteq> []" by auto
  moreover from assms have "n \<le> Max (set (attemptNos_of s uid qz))" by simp
  ultimately show ?thesis by (simp add: next_attemptNo_Max)
qed

lemma attemptNos_finalized:
  assumes "attempt_rows s' = map (\<lambda>b. if at_id b = i then finalize t sc b else b) (attempt_rows s)"
  shows "attemptNos_of s' uid qz = attemptNos_of s uid qz"
proof -
  have "map at_attemptNo (filter (\<lambda>a. at_userId a = uid \<and> at_quizId a = qz)
          (map (\<lambda>b. if at_id b = i then finalize t sc b else b) rows)) =
        map at_attemptNo (filter (\<lambda>a. at_userId a = uid \<and> at_quizId a = qz) rows)" for rows
    by (induction rows) auto
  with assms show ?thesis by (simp add: attemptNos_of_def)
qed

lemma step_attemptNos:
  assumes "sorted_wrt (<) (attemptNos_of s uid qz)"
  shows "sorted_wrt (<) (attemptNos_of (step s rq) uid qz)
       \<and> (\<exists>more. attemptNos_of (step s rq) uid qz = attemptNos_of s uid qz @ more)"
proof (cases rule: step_cases [of s rq])
  case unchanged
  with assms show ?thesis by simp
next
  case (drafted x)
  then have "attemptNos_of (step s rq) uid qz = attemptNos_of s uid qz"
    by (simp add: attemptNos_of_def)
  with assms show ?thesis by simp
next
  case (finalized x t sc)
  from attemptNos_finalized [OF finalized(3)] assms show ?thesis by simp
next
  case (created a)
  show ?thesis
  proof (cases "at_userId a = uid \<and> at_quizId a = qz")
    case False
    with created(1) have "attemptNos_of (step s rq) uid qz = attemptNos_of s uid qz"
      by (auto simp: attemptNos_of_def)
    with assms show ?thesis by simp
  next
    case True
    with created(1) have eq: "attemptNos_of (step s rq) uid qz = attemptNos_of s uid qz @ [at_attemptNo a]"
      by (simp add: attemptNos_of_def)
    from True created(3) have "at_attemptNo a = next_attemptNo s uid qz" by simp
    then have "\<forall>n \<in> set (attemptNos_of s uid qz). n < at_attemptNo a"
      using next_attemptNo_greater by auto
    with assms eq show ?thesis by (simp add: sorted_wrt_append)
  qed
qed

lemma run_attemptNos:
  assumes "sorted_wrt (<) (attemptNos_of s uid qz)"
  shows "sorted_wrt (<) (attemptNos_of (run s rs) uid qz)
       \<and> (\<exists>more. attemptNos_of (run s rs) uid qz = attemptNos_of s uid qz @ more)"
  using assms
proof (induction rs arbitrary: s)
  case Nil
  then show ?case by (simp add: run_Nil)
next
  case (Cons rq rs)
  from step_attemptNos [OF Cons.prems, of rq] obtain m1 where
    1: "sorted_wrt (<) (attemptNos_of (step s rq) uid qz)"
    and 2: "attemptNos_of (step s rq) uid qz = attemptNos_of s uid qz @ m1" by blast
  from Cons.IH [OF 1] obtain m2 where
    3: "sorted_wrt (<) (attemptNos_of (run (step s rq) rs) uid qz)"
    and 4: "attemptNos_of (run (step s rq) rs) uid qz = attemptNos_of (step s rq) uid qz @ m2" by blast
  from 2 4 have "attemptNos_of (run (step s rq) rs) uid qz = attemptNos_of s uid qz @ (m1 @ m2)" by simp
  with 3 show ?case unfolding run_Cons by blast
qed

lemma step_created_attemptNo:
  assumes "attempt_rows (step s rq) = attempt_rows s @ [a]"
  shows "at_attemptNo a = next_attemptNo s (at_userId a) (at_quizId a)"
proof (cases rule: step_cases [of s rq])
  case unchanged
  with assms show ?thesis by simp
next
  case (drafted x)
  with assms show ?thesis by simp
next
  case (finalized x t sc)
  from finalized(3) have "length (attempt_rows (step s rq)) = length (attempt_rows s)"
    by (simp only: length_map)
  with assms show ?thesis by simp
next
  case (created b)
  with assms have "a = b" by simp
  with created(3) show ?thesis by simp
qed

section \<open>Saving the same answers again\<close>

lemma last_choiceIds_None: "(last_choiceIds es q = None) = (q \<notin> questionId ` set es)"
  by (induction es) (auto split: option.splits)

lemma last_choiceIds_distinct:
  "distinct (map questionId es) \<Longrightarrow> e \<in> set es \<Longrightarrow>
   last_choiceIds es (questionId e) = Some (or_empty (choiceIds e))"
proof (induction es)
  case Nil
  then show ?case by simp
next
  case (Cons e0 rest)
  show ?case
  proof (cases "e \<in> set rest")
    case True
    with Cons show ?thesis by simp
  next
    case False
    with Cons.prems have e: "e = e0" by simp
    from Cons.prems(1) have "questionId e0 \<notin> questionId ` set rest" by simp
    then have "last_choiceIds rest (questionId e0) = None" by (simp add: last_choiceIds_None)
    with e show ?thesis by simp
  qed
qed

lemma connect_ok_choice_rows: "choice_rows s' = choice_rows s \<Longrightarrow> connect_ok s' cs = connect_ok s cs"
  by (simp add: connect_ok_def)

lemma answer_upsert_choice_rows:
  assumes "answer_upsert aid q cs s = Inr s'"
  shows "choice_rows s' = choice_rows s"
proof -
  from answer_upsert_others [OF assms]
  have "choice_rows s' = choice_rows (s\<lparr>answer_rows := answer_rows s'\<rparr>)" by simp
  then show ?thesis by simp
qed

lemma upsert_answers_last:
  assumes "upsert_answers aid es s = Inr s'" and "r \<in> set (answer_rows s')"
    and "an_attemptId r = aid" and "last_choiceIds es (an_questionId r) = Some cs"
  shows "an_choices r = set cs"
  using assms(1,4)
proof (induction es arbitrary: s)
  case Nil
  then show ?case by simp
next
  case (Cons e rest)
  from Cons.prems(1) obtain s1 where 1: "answer_upsert aid (questionId e) (or_empty (choiceIds e)) s = Inr s1"
    and 2: "upsert_answers aid rest s1 = Inr s'"
    by (rule upsert_answers_Cons)
  show ?case
  proof (cases "last_choiceIds rest (an_questionId r)")
    case (Some cs')
    with Cons.prems(2) have "cs' = cs" by simp
    with Cons.IH [OF 2] Some show ?thesis by simp
  next
    case None
    with Cons.prems(2) have q: "questionId e = an_questionId r" and cs: "cs = or_empty (choiceIds e)"
      by (simp_all split: if_splits)
    from None have out: "an_questionId r \<notin> questionId ` set rest" by (simp add: last_choiceIds_None)
    have hit: "answer_is aid (questionId e) r" using assms(3) q by (simp add: answer_is_def)
    have "filter (answer_is aid (questionId e)) (answer_rows s') =
          filter (answer_is aid (questionId e)) (answer_rows s1)"
    proof (rule upsert_answers_frame [OF 2])
      show "answer_is aid (questionId e) (r'\<lparr>an_choices := x\<rparr>) = answer_is aid (questionId e) r'" for r' x
        by (simp add: answer_is_def)
      show "\<not> answer_is aid (questionId e') r'" if "answer_is aid (questionId e) r'" "e' \<in> set rest" for r' e'
        using that out q by (auto simp: answer_is_def)
    qed
    moreover from assms(2) hit have "r \<in> set (filter (answer_is aid (questionId e)) (answer_rows s'))"
      by simp
    ultimately have "r \<in> set (answer_rows s1)" by simp
    from answer_upsert_choices [OF 1 this hit] cs show ?thesis by simp
  qed
qed

lemma upsert_answers_rows_exist:
  "upsert_answers aid es s = Inr s' \<Longrightarrow> e \<in> set es \<Longrightarrow>
   list_ex (answer_is aid (questionId e)) (answer_rows s')"
proof (induction es arbitrary: s)
  case Nil
  then show ?case by simp
next
  case (Cons e0 rest)
  from Cons.prems(1) obtain s1 where 1: "answer_upsert aid (questionId e0) (or_empty (choiceIds e0)) s = Inr s1"
    and 2: "upsert_answers aid rest s1 = Inr s'"
    by (rule upsert_answers_Cons)
  show ?case
  proof (cases "e \<in> set rest")
    case True
    from Cons.IH [OF 2 True] show ?thesis .
  next
    case False
    with Cons.prems(2) have "e = e0" by simp
    with answer_upsert_exists [OF 1] upsert_answers_keeps_rows [OF 2] show ?thesis by simp
  qed
qed

lemma upsert_answers_connect_ok:
  "upsert_answers aid es s = Inr s' \<Longrightarrow> e \<in> set es \<Longrightarrow> connect_ok s (or_empty (choiceIds e))"
proof (induction es arbitrary: s)
  case Nil
  then show ?case by simp
next
  case (Cons e0 rest)
  from Cons.prems(1) obtain s1 where 1: "answer_upsert aid (questionId e0) (or_empty (choiceIds e0)) s = Inr s1"
    and 2: "upsert_answers aid rest s1 = Inr s'"
    by (rule upsert_answers_Cons)
  show ?case
  proof (cases "e \<in> set rest")
    case True
    from Cons.IH [OF 2 True] connect_ok_choice_rows [OF answer_upsert_choice_rows [OF 1]]
    show ?thesis by simp
  next
    case False
    with Cons.prems(2) have "e = e0" by simp
    with answer_upsert_connect_ok [OF 1] show ?thesis by simp
  qed
qed

lemma overwrite_step:
  "overwrite aid rest (set_choices aid (questionId e) (or_empty (choiceIds e)) r) =
   overwrite aid (e # rest) r"
  by (auto simp: overwrite_def set_choices_def answer_is_def split: option.splits)

lemma upsert_answers_again:
  assumes "\<forall>e \<in> set es. list_ex (answer_is aid (questionId e)) (answer_rows s)"
    and "\<forall>e \<in> set es. connect_ok s (or_empty (choiceIds e))"
  shows "upsert_answers aid es s = Inr (s\<lparr>answer_rows := map (overwrite aid es) (answer_rows s)\<rparr>)"
  using assms
proof (induction es arbitrary: s)
  case Nil
  have "map (overwrite aid []) (answer_rows s) = answer_rows s"
    by (rule map_idI) (simp add: overwrite_def)
  then show ?case by simp
next
  case (Cons e rest)
  let ?s1 = "s\<lparr>answer_rows := map (set_choices aid (questionId e) (or_empty (choiceIds e))) (answer_rows s)\<rparr>"
  from Cons.prems have 1: "answer_upsert aid (questionId e) (or_empty (choiceIds e)) s = Inr ?s1"
    by (simp add: answer_upsert_def answer_update_set_def)
  have ex: "\<forall>e' \<in> set rest. list_ex (answer_is aid (questionId e')) (answer_rows ?s1)"
    using Cons.prems(1) by (simp add: list_ex_iff)
  have ok: "\<forall>e' \<in> set rest. connect_ok ?s1 (or_empty (choiceIds e'))"
    using Cons.prems(2) by (simp add: connect_ok_def)
  have "upsert_answers aid rest ?s1 = Inr (?s1\<lparr>answer_rows := map (overwrite aid rest) (answer_rows ?s1)\<rparr>)"
    by (rule Cons.IH [OF ex ok])
  moreover have "?s1\<lparr>answer_rows := map (overwrite aid rest) (answer_rows ?s1)\<rparr> =
                 s\<lparr>answer_rows := map (overwrite aid (e # rest)) (answer_rows s)\<rparr>"
    by (simp add: overwrite_step comp_def)
  ultimately show ?case using 1 by simp
qed

lemma upsert_answers_idempotent:
  assumes "upsert_answers aid es s = Inr s1"
  shows "upsert_answers aid es s1 = Inr s1"
proof -
  have ex: "\<forall>e \<in> set es. list_ex (answer_is aid (questionId e)) (answer_rows s1)"
    using upsert_answers_rows_exist [OF assms] by blast
  have cr: "choice_rows s1 = choice_rows s"
  proof -
    from upsert_answers_others [OF assms]
    have "choice_rows s1 = choice_rows (s\<lparr>answer_rows := answer_rows s1\<rparr>)" by simp
    then show ?thesis by simp
  qed
  have ok: "\<forall>e \<in> set es. connect_ok s1 (or_empty (choiceIds e))"
    using upsert_answers_connect_ok [OF assms] connect_ok_choice_rows [OF cr] by blast
  have "map (overwrite aid es) (answer_rows s1) = answer_rows s1"
  proof (rule map_idI)
    fix r
    assume r: "r \<in> set (answer_rows s1)"
    show "overwrite aid es r = r"
    proof (cases "an_attemptId r = aid")
      case False
      then show ?thesis by (simp add: overwrite_def)
    next
      case True
      show ?thesis
      proof (cases "last_choiceIds es (an_questionId r)")
        case None
        with True show ?thesis by (simp add: overwrite_def)
      next
        case (Some cs)
        from upsert_answers_last [OF assms r True Some] True Some show ?thesis
          by (simp add: overwrite_def)
      qed
    qed
  qed
  with upsert_answers_again [OF ex ok] show ?thesis by simp
qed

lemma one_row_per_key:
  assumes "unique_answers s" and "list_ex (answer_is aid q) (answer_rows s)"
  shows "length (filter (answer_is aid q) (answer_rows s)) = 1"
proof -
  let ?ys = "filter (answer_is aid q) (answer_rows s)"
  from assms(1) have d: "distinct (map answer_key ?ys)"
    by (simp add: unique_answers_def distinct_map_filter)
  have "set (map answer_key ?ys) \<subseteq> {(aid, q)}" by (auto simp: answer_is_key)
  then have "card (set (map answer_key ?ys)) \<le> card {(aid, q)}"
    by (intro card_mono) simp_all
  with distinct_card [OF d] have "length ?ys \<le> 1" by simp
  moreover from assms(2) have "?ys \<noteq> []" by (auto simp: list_ex_iff filter_empty_conv)
  ultimately show ?thesis by (cases ?ys) auto
qed

section \<open>Scoring rules\<close>

lemma byQuestionId_scenario:
  "byQuestionId [scenario_q1, scenario_q2] ''q1'' = Some scenario_q1"
  "byQuestionId [scenario_q1, scenario_q2] ''q2'' = Some scenario_q2"
  by (simp_all add: byQuestionId_def scenario_q1_def scenario_q2_def)

text \<open>
  Claim C4. For a single-choice question the scoring marks an answer entry correct exactly
  when its deduplicated submitted choice set has one element, that element is in the
  question's correct set, and the correct set has one member. An entry that passes
  validation therefore adds 1 to the score in exactly that case; zero choices, several
  choices and a single wrong choice all score incorrect.
\<close>

theorem single_choice_scoring:
  assumes "sq_type q = SINGLE_CHOICE"
  shows "(isCorrect (sq_type q) (submitted_of a) (correct_of q) =
            (card (submitted_set a) = 1 \<and> submitted_set a \<subseteq> correct_set q
             \<and> card (correct_set q) = 1))
       \<and> (byQuestionId qs (questionId a) = Some q \<and> submitted_set a \<subseteq> valid_set q \<longrightarrow>
            score_loop qs (a # rest) sc =
            score_loop qs rest
              (if card (submitted_set a) = 1 \<and> submitted_set a \<subseteq> correct_set q
                  \<and> card (correct_set q) = 1 then sc + 1 else sc))
       \<and> (submitted_set a = {} \<longrightarrow> \<not> isCorrect (sq_type q) (submitted_of a) (correct_of q))
       \<and> (1 < card (submitted_set a) \<longrightarrow> \<not> isCorrect (sq_type q) (submitted_of a) (correct_of q))
       \<and> (\<forall>c. submitted_set a = {c} \<and> c \<notin> correct_set q \<longrightarrow>
            \<not> isCorrect (sq_type q) (submitted_of a) (correct_of q))"
proof -
  have iff: "isCorrect (sq_type q) (submitted_of a) (correct_of q) =
            (card (submitted_set a) = 1 \<and> submitted_set a \<subseteq> correct_set q
             \<and> card (correct_set q) = 1)"
    using assms by (simp add: isCorrect_single)
  have loop: "byQuestionId qs (questionId a) = Some q \<and> submitted_set a \<subseteq> valid_set q \<longrightarrow>
            score_loop qs (a # rest) sc =
            score_loop qs rest
              (if card (submitted_set a) = 1 \<and> submitted_set a \<subseteq> correct_set q
                  \<and> card (correct_set q) = 1 then sc + 1 else sc)"
    using score_loop_step [of qs a q rest sc] iff by simp
  have none: "submitted_set a = {} \<longrightarrow> \<not> isCorrect (sq_type q) (submitted_of a) (correct_of q)"
    using iff by simp
  have many: "1 < card (submitted_set a) \<longrightarrow> \<not> isCorrect (sq_type q) (submitted_of a) (correct_of q)"
    using iff by simp
  have wrong: "\<forall>c. submitted_set a = {c} \<and> c \<notin> correct_set q \<longrightarrow>
            \<not> isCorrect (sq_type q) (submitted_of a) (correct_of q)"
    using iff by auto
  from iff loop none many wrong show ?thesis by blast
qed

theorem single_choice_scoring_witness:
  "sq_type scenario_q1 = SINGLE_CHOICE
   \<and> isCorrect (sq_type scenario_q1) (submitted_of (entry ''q1'' [''A''])) (correct_of scenario_q1)
   \<and> score_loop [scenario_q1, scenario_q2] [entry ''q1'' [''A'']] 0 = Inr 1
   \<and> \<not> isCorrect (sq_type scenario_q1) (submitted_of (entry ''q1'' [''B''])) (correct_of scenario_q1)
   \<and> \<not> isCorrect (sq_type scenario_q1) (submitted_of (entry ''q1'' [])) (correct_of scenario_q1)
   \<and> \<not> isCorrect (sq_type scenario_q1) (submitted_of (entry ''q1'' [''A'', ''B''])) (correct_of scenario_q1)"
proof -
  have ty: "sq_type scenario_q1 = SINGLE_CHOICE" by (simp add: scenario_q1_def)
  have c: "correct_set scenario_q1 = {''A''}" by (simp add: correct_set_def scenario_q1_def)
  have v: "valid_set scenario_q1 = {''A'', ''B''}" by (simp add: valid_set_def scenario_q1_def)
  have sA: "submitted_set (entry ''q1'' [''A'']) = {''A''}" by (simp add: submitted_set_def entry_def)
  have sB: "submitted_set (entry ''q1'' [''B'']) = {''B''}" by (simp add: submitted_set_def entry_def)
  have s0: "submitted_set (entry ''q1'' []) = {}" by (simp add: submitted_set_def entry_def)
  have sAB: "submitted_set (entry ''q1'' [''A'', ''B'']) = {''A'', ''B''}"
    by (simp add: submitted_set_def entry_def)
  have q: "questionId (entry ''q1'' [''A'']) = ''q1''" by (simp add: entry_def)
  note T = single_choice_scoring [OF ty, of "entry ''q1'' [''A'']" "[scenario_q1, scenario_q2]" "[]" 0]
  have 1: "isCorrect (sq_type scenario_q1) (submitted_of (entry ''q1'' [''A''])) (correct_of scenario_q1)"
    using T [THEN conjunct1] by (simp add: c sA)
  have 2: "score_loop [scenario_q1, scenario_q2] [entry ''q1'' [''A'']] 0 = Inr 1"
    using T [THEN conjunct2, THEN conjunct1] by (simp add: c v sA q byQuestionId_scenario)
  have 3: "\<not> isCorrect (sq_type scenario_q1) (submitted_of (entry ''q1'' [''B''])) (correct_of scenario_q1)"
    using single_choice_scoring [OF ty, of "entry ''q1'' [''B'']" "[]" "[]" 0, THEN conjunct1]
    by (simp add: c sB)
  have 4: "\<not> isCorrect (sq_type scenario_q1) (submitted_of (entry ''q1'' [])) (correct_of scenario_q1)"
    using single_choice_scoring [OF ty, of "entry ''q1'' []" "[]" "[]" 0, THEN conjunct1]
    by (simp add: c s0)
  have 5: "\<not> isCorrect (sq_type scenario_q1) (submitted_of (entry ''q1'' [''A'', ''B''])) (correct_of scenario_q1)"
    using single_choice_scoring [OF ty, of "entry ''q1'' [''A'', ''B'']" "[]" "[]" 0, THEN conjunct1]
    by (simp add: c sAB)
  from ty 1 2 3 4 5 show ?thesis by blast
qed

text \<open>
  Claim C5. For a multiple-choice question the scoring marks an answer entry correct exactly
  when its deduplicated submitted choice set equals the set of choices flagged correct, which
  is the same as: equal cardinality and the correct set included in the submitted set. A
  strict subset, a strict superset and a disjoint set other than the correct set score
  incorrect.
\<close>

theorem multiple_choice_scoring:
  assumes "sq_type q = MULTIPLE_CHOICE"
  shows "(isCorrect (sq_type q) (submitted_of a) (correct_of q) = (submitted_set a = correct_set q))
       \<and> ((submitted_set a = correct_set q) =
            (card (submitted_set a) = card (correct_set q) \<and> correct_set q \<subseteq> submitted_set a))
       \<and> (byQuestionId qs (questionId a) = Some q \<and> submitted_set a \<subseteq> valid_set q \<longrightarrow>
            score_loop qs (a # rest) sc =
            score_loop qs rest (if submitted_set a = correct_set q then sc + 1 else sc))
       \<and> (submitted_set a \<subset> correct_set q \<longrightarrow>
            \<not> isCorrect (sq_type q) (submitted_of a) (correct_of q))
       \<and> (correct_set q \<subset> submitted_set a \<longrightarrow>
            \<not> isCorrect (sq_type q) (submitted_of a) (correct_of q))
       \<and> (submitted_set a \<inter> correct_set q = {} \<and> submitted_set a \<noteq> correct_set q \<longrightarrow>
            \<not> isCorrect (sq_type q) (submitted_of a) (correct_of q))"
proof -
  have iff: "isCorrect (sq_type q) (submitted_of a) (correct_of q) = (submitted_set a = correct_set q)"
    using assms by (simp add: isCorrect_multiple card_subset_set_equal)
  have eq: "(submitted_set a = correct_set q) =
            (card (submitted_set a) = card (correct_set q) \<and> correct_set q \<subseteq> submitted_set a)"
    by (simp add: card_subset_set_equal)
  have loop: "byQuestionId qs (questionId a) = Some q \<and> submitted_set a \<subseteq> valid_set q \<longrightarrow>
            score_loop qs (a # rest) sc =
            score_loop qs rest (if submitted_set a = correct_set q then sc + 1 else sc)"
    using score_loop_step [of qs a q rest sc] iff by simp
  have sub: "submitted_set a \<subset> correct_set q \<longrightarrow>
            \<not> isCorrect (sq_type q) (submitted_of a) (correct_of q)"
    using iff by auto
  have sup: "correct_set q \<subset> submitted_set a \<longrightarrow>
            \<not> isCorrect (sq_type q) (submitted_of a) (correct_of q)"
    using iff by auto
  have dis: "submitted_set a \<inter> correct_set q = {} \<and> submitted_set a \<noteq> correct_set q \<longrightarrow>
            \<not> isCorrect (sq_type q) (submitted_of a) (correct_of q)"
    using iff by auto
  from iff eq loop sub sup dis show ?thesis by blast
qed

theorem multiple_choice_scoring_witness:
  "sq_type scenario_q2 = MULTIPLE_CHOICE
   \<and> isCorrect (sq_type scenario_q2) (submitted_of (entry ''q2'' [''D'', ''C'', ''D''])) (correct_of scenario_q2)
   \<and> score_loop [scenario_q1, scenario_q2] [entry ''q2'' [''D'', ''C'', ''D'']] 0 = Inr 1
   \<and> \<not> isCorrect (sq_type scenario_q2) (submitted_of (entry ''q2'' [''C''])) (correct_of scenario_q2)
   \<and> \<not> isCorrect (sq_type scenario_q2) (submitted_of (entry ''q2'' [''C'', ''D'', ''E''])) (correct_of scenario_q2)
   \<and> \<not> isCorrect (sq_type scenario_q2) (submitted_of (entry ''q2'' [''E''])) (correct_of scenario_q2)"
proof -
  have ty: "sq_type scenario_q2 = MULTIPLE_CHOICE" by (simp add: scenario_q2_def)
  have c: "correct_set scenario_q2 = {''C'', ''D''}" by (simp add: correct_set_def scenario_q2_def)
  have v: "valid_set scenario_q2 = {''C'', ''D'', ''E''}" by (simp add: valid_set_def scenario_q2_def)
  have s1: "submitted_set (entry ''q2'' [''D'', ''C'', ''D'']) = {''C'', ''D''}"
    by (auto simp: submitted_set_def entry_def)
  have s2: "submitted_set (entry ''q2'' [''C'']) = {''C''}" by (simp add: submitted_set_def entry_def)
  have s3: "submitted_set (entry ''q2'' [''C'', ''D'', ''E'']) = {''C'', ''D'', ''E''}"
    by (simp add: submitted_set_def entry_def)
  have s4: "submitted_set (entry ''q2'' [''E'']) = {''E''}" by (simp add: submitted_set_def entry_def)
  have q: "questionId (entry ''q2'' [''D'', ''C'', ''D'']) = ''q2''" by (simp add: entry_def)
  have diff: "\<And>x (A::string set) B. x \<in> A \<Longrightarrow> x \<notin> B \<Longrightarrow> A \<noteq> B" by blast
  have ne2: "{''C''} \<noteq> {''C'', ''D''}"
    using diff [of "''D''" "{''C'', ''D''}" "{''C''}"] by simp
  have ne3: "{''C'', ''D'', ''E''} \<noteq> {''C'', ''D''}"
    using diff [of "''E''" "{''C'', ''D'', ''E''}" "{''C'', ''D''}"] by simp
  have ne4: "{''E''} \<noteq> {''C'', ''D''}"
    using diff [of "''E''" "{''E''}" "{''C'', ''D''}"] by simp
  note T = multiple_choice_scoring [OF ty, of "entry ''q2'' [''D'', ''C'', ''D'']" "[scenario_q1, scenario_q2]" "[]" 0]
  have 1: "isCorrect (sq_type scenario_q2) (submitted_of (entry ''q2'' [''D'', ''C'', ''D''])) (correct_of scenario_q2)"
    using T [THEN conjunct1] unfolding c s1 by blast
  have sub: "{''C'', ''D''} \<subseteq> {''C'', ''D'', ''E''}" by auto
  have 2: "score_loop [scenario_q1, scenario_q2] [entry ''q2'' [''D'', ''C'', ''D'']] 0 = Inr 1"
    using T [THEN conjunct2, THEN conjunct2, THEN conjunct1] sub
    by (simp add: c v s1 q byQuestionId_scenario del: insert_subset)
  have 3: "\<not> isCorrect (sq_type scenario_q2) (submitted_of (entry ''q2'' [''C''])) (correct_of scenario_q2)"
    using multiple_choice_scoring [OF ty, of "entry ''q2'' [''C'']" "[]" "[]" 0, THEN conjunct1] ne2
    unfolding c s2 by blast
  have 4: "\<not> isCorrect (sq_type scenario_q2) (submitted_of (entry ''q2'' [''C'', ''D'', ''E''])) (correct_of scenario_q2)"
    using multiple_choice_scoring [OF ty, of "entry ''q2'' [''C'', ''D'', ''E'']" "[]" "[]" 0, THEN conjunct1] ne3
    unfolding c s3 by blast
  have 5: "\<not> isCorrect (sq_type scenario_q2) (submitted_of (entry ''q2'' [''E''])) (correct_of scenario_q2)"
    using multiple_choice_scoring [OF ty, of "entry ''q2'' [''E'']" "[]" "[]" 0, THEN conjunct1] ne4
    unfolding c s4 by blast
  from ty 1 2 3 4 5 show ?thesis by blast
qed

text \<open>
  Claim C10. For a multiple-choice question none of whose choices is flagged correct, an
  answer entry whose \<^verbatim>\<open>choiceIds\<close> is empty, or holds only falsy ids, is scored correct and
  adds 1 to the score. The single-choice branch has the guard: with an empty correct set it
  scores every entry incorrect.
\<close>

theorem multiple_choice_no_correct_choice:
  assumes "byQuestionId qs (questionId a) = Some q"
    and "sq_type q = MULTIPLE_CHOICE"
    and "\<forall>p \<in> set (sq_choices q). \<not> snd p"
    and "set (or_empty (choiceIds a)) \<subseteq> {[]}"
  shows "isCorrect (sq_type q) (submitted_of a) (correct_of q)
       \<and> score_loop qs (a # rest) sc = score_loop qs rest (sc + 1)
       \<and> \<not> isCorrect SINGLE_CHOICE (submitted_of b) (correct_of q)"
proof -
  have c: "correct_set q = {}"
    using assms(3) by (auto simp: correct_set_def)
  have s: "submitted_set a = {}"
    using assms(4) by (auto simp: submitted_set_def)
  have ok: "isCorrect (sq_type q) (submitted_of a) (correct_of q)"
    using assms(2) c s by (simp add: isCorrect_multiple)
  have loop: "score_loop qs (a # rest) sc = score_loop qs rest (sc + 1)"
    using score_loop_step [of qs a q rest sc] assms(1) ok s by simp
  have guard: "\<not> isCorrect SINGLE_CHOICE (submitted_of b) (correct_of q)"
    using c by (simp add: isCorrect_single)
  from ok loop guard show ?thesis by blast
qed

theorem multiple_choice_no_correct_choice_witness:
  "score_loop [malformed_q] [entry ''q3'' []] 0 = Inr 1
   \<and> score_loop [malformed_q] [entry ''q3'' [[], []]] 0 = Inr 1
   \<and> score_loop [malformed_q] [\<lparr>questionId = ''q3'', choiceIds = None\<rparr>] 0 = Inr 1"
proof -
  have b: "byQuestionId [malformed_q] ''q3'' = Some malformed_q"
    by (simp add: byQuestionId_def malformed_q_def)
  have ty: "sq_type malformed_q = MULTIPLE_CHOICE" by (simp add: malformed_q_def)
  have nc: "\<forall>p \<in> set (sq_choices malformed_q). \<not> snd p" by (simp add: malformed_q_def)
  have 1: "score_loop [malformed_q] [entry ''q3'' []] 0 = Inr 1"
    using multiple_choice_no_correct_choice [of "[malformed_q]" "entry ''q3'' []" malformed_q "[]" 0, OF _ ty nc]
    by (simp add: b entry_def)
  have 2: "score_loop [malformed_q] [entry ''q3'' [[], []]] 0 = Inr 1"
    using multiple_choice_no_correct_choice [of "[malformed_q]" "entry ''q3'' [[], []]" malformed_q "[]" 0, OF _ ty nc]
    by (simp add: b entry_def)
  have 3: "score_loop [malformed_q] [\<lparr>questionId = ''q3'', choiceIds = None\<rparr>] 0 = Inr 1"
    using multiple_choice_no_correct_choice [of "[malformed_q]" "\<lparr>questionId = ''q3'', choiceIds = None\<rparr>" malformed_q "[]" 0, OF _ ty nc]
    by (simp add: b)
  from 1 2 3 show ?thesis by blast
qed

section \<open>Question reorder\<close>

lemma greatest_order_mem: "greatest_order xs = Some n \<Longrightarrow> n \<in> set xs"
  by (induction xs arbitrary: n) (auto split: option.splits if_splits)

lemma smallest_order_mem: "smallest_order xs = Some n \<Longrightarrow> n \<in> set xs"
  by (induction xs arbitrary: n) (auto split: option.splits if_splits)

lemma neighbor_of_props:
  assumes "neighbor_of s q mv = Some n"
  shows "n \<in> set (question_rows s) \<and> q_quizId n = q_quizId q \<and> q_order n \<noteq> q_order q"
proof (cases mv)
  case UP
  with assms have "greatest_order (filter (\<lambda>p. q_quizId p = q_quizId q \<and> q_order p < q_order q) (question_rows s)) = Some n"
    by simp
  then have "n \<in> set (filter (\<lambda>p. q_quizId p = q_quizId q \<and> q_order p < q_order q) (question_rows s))"
    by (rule greatest_order_mem)
  then show ?thesis by auto
next
  case DOWN
  with assms have "smallest_order (filter (\<lambda>p. q_quizId p = q_quizId q \<and> q_order q < q_order p) (question_rows s)) = Some n"
    by simp
  then have "n \<in> set (filter (\<lambda>p. q_quizId p = q_quizId q \<and> q_order q < q_order p) (question_rows s))"
    by (rule smallest_order_mem)
  then show ?thesis by auto
qed

lemma first_update_fails:
  assumes pk: "distinct (map q_id (question_rows s))"
    and q: "question_findUnique s qid = Some q"
    and n: "neighbor_of s q mv = Some n"
  shows "question_update_order (q_id q) (q_order n) s =
         Inl (UniqueConstraintFailed ''Question_quizId_order_key'')"
proof -
  from q have qm: "q \<in> set (question_rows s)" and qi: "q_id q = qid"
    using find_Some_mem [of "\<lambda>q. q_id q = qid" "question_rows s" q]
    by (simp_all add: question_findUnique_def)
  from neighbor_of_props [OF n]
  have nm: "n \<in> set (question_rows s)" and nq: "q_quizId n = q_quizId q"
    and no: "q_order n \<noteq> q_order q" by simp_all
  from no have "n \<noteq> q" by auto
  with pk qm nm have ni: "q_id n \<noteq> q_id q"
    using distinct_map_eq [of q_id "question_rows s" n q] by blast
  from nm ni nq
  have "list_ex (\<lambda>p. q_id p \<noteq> q_id q \<and> q_quizId p = q_quizId q \<and> q_order p = q_order n) (question_rows s)"
    unfolding list_ex_iff by blast
  with q qi show ?thesis by (simp add: question_update_order_def)
qed

text \<open>
  Claim C9. A reorder is meant to exchange the order of the target question and of its
  neighbor. With the unique index on (quizId, order) the first of the two updates gives the
  target the order that the neighbor still holds, so the statement fails, the transaction is
  rolled back and the handler answers 400: whenever the neighbor exists, no order changes.
\<close>

theorem reorder_with_neighbor_fails:
  assumes "distinct (map q_id (question_rows s))"
    and "question_findUnique s (ub_id body) = Some q"
    and "neighbor_of s q (ub_move body) = Some n"
    and "auth env = Some admin" and "rl_ok env" and "ub_id body \<noteq> []"
  shows "reorder_tx body s = Inl (Prisma (UniqueConstraintFailed ''Question_quizId_order_key''))
       \<and> reorder_PUT env (Some body) s =
           (Inl (JsonError 400 ''Unique constraint failed: Question_quizId_order_key''), s)"
proof -
  have tx: "reorder_tx body s = Inl (Prisma (UniqueConstraintFailed ''Question_quizId_order_key''))"
    using first_update_fails [OF assms(1) assms(2) assms(3)] assms(2) assms(3)
    by (simp add: reorder_tx_def)
  have "reorder_PUT env (Some body) s =
           (Inl (JsonError 400 ''Unique constraint failed: Question_quizId_order_key''), s)"
    using tx assms(4) assms(5) assms(6)
    by (simp add: reorder_PUT_def transaction_def Boolean_def)
  with tx show ?thesis by blast
qed

theorem reorder_with_neighbor_fails_witness:
  "reorder_PUT admin_env (Some \<lparr>ub_id = ''q2'', ub_move = UP\<rparr>) scenario_store =
     (Inl (JsonError 400 ''Unique constraint failed: Question_quizId_order_key''), scenario_store)"
proof -
  have pk: "distinct (map q_id (question_rows scenario_store))"
    by (simp add: scenario_store_def)
  have f: "question_findUnique scenario_store (ub_id \<lparr>ub_id = ''q2'', ub_move = UP\<rparr>) =
     Some \<lparr>q_id = ''q2'', q_prompt = ''p2'', q_hint = None, q_rationale = None,
           q_type = MULTIPLE_CHOICE, q_order = 1, q_quizId = ''z1''\<rparr>"
    by (simp add: question_findUnique_def scenario_store_def)
  have n: "neighbor_of scenario_store
     \<lparr>q_id = ''q2'', q_prompt = ''p2'', q_hint = None, q_rationale = None,
      q_type = MULTIPLE_CHOICE, q_order = 1, q_quizId = ''z1''\<rparr> (ub_move \<lparr>ub_id = ''q2'', ub_move = UP\<rparr>) =
   Some \<lparr>q_id = ''q1'', q_prompt = ''p1'', q_hint = None, q_rationale = None,
         q_type = SINGLE_CHOICE, q_order = 0, q_quizId = ''z1''\<rparr>"
    by (simp add: scenario_store_def)
  have a: "auth admin_env = Some ''admin''" and r: "rl_ok admin_env"
    by (simp_all add: admin_env_def)
  have i: "ub_id \<lparr>ub_id = ''q2'', ub_move = UP\<rparr> \<noteq> []" by simp
  from reorder_with_neighbor_fails [OF pk f n a r i] show ?thesis by blast
qed

text \<open>Without a neighbor the reorder changes nothing and succeeds.\<close>

lemma reorder_without_neighbor:
  assumes "question_findUnique s (ub_id body) = Some q" and "neighbor_of s q (ub_move body) = None"
    and "auth env = Some admin" and "rl_ok env" and "ub_id body \<noteq> []"
  shows "reorder_PUT env (Some body) s = (Inr (), s)"
  using assms by (simp add: reorder_PUT_def reorder_tx_def transaction_def Boolean_def)

section \<open>Validation of a submission\<close>

lemma sq_id_select: "sq_id (select_question s q) = q_id q"
  by (simp add: select_question_def)

lemma valid_set_select:
  "valid_set (select_question s q) = {cid. choice_of_question s (q_id q) cid}"
  by (force simp: valid_set_def select_question_def choice_of_question_def list_ex_iff image_iff)

lemma byQuestionId_None:
  "(byQuestionId (question_findMany s qz) qid = None) = (\<not> question_of_quiz s qz qid)"
  by (auto simp: byQuestionId_def map_of_eq_None_iff question_findMany_def question_of_quiz_def
        list_ex_iff image_iff sq_id_select)

lemma byQuestionId_Some:
  assumes "byQuestionId (question_findMany s qz) qid = Some q"
  shows "valid_set q = {cid. choice_of_question s qid cid}"
proof -
  from assms have "(qid, q) \<in> set (rev (map (\<lambda>q. (sq_id q, q)) (question_findMany s qz)))"
    unfolding byQuestionId_def by (rule map_of_SomeD)
  then obtain q0 where "q = select_question s q0" and "q_id q0 = qid"
    by (auto simp: question_findMany_def sq_id_select)
  then show ?thesis by (simp add: valid_set_select)
qed

lemma score_loop_rejects:
  assumes "a \<in> set entries"
    and "byQuestionId qs (questionId a) = None
         \<or> (\<exists>q. byQuestionId qs (questionId a) = Some q \<and> \<not> submitted_set a \<subseteq> valid_set q)"
  shows "\<exists>m. score_loop qs entries sc = Inl (JsonError 400 m)"
  using assms
proof (induction entries arbitrary: sc)
  case Nil
  then show ?case by simp
next
  case (Cons e rest)
  show ?case
  proof (cases "byQuestionId qs (questionId e)")
    case None
    then show ?thesis by simp
  next
    case (Some q)
    show ?thesis
    proof (cases "submitted_set e \<subseteq> valid_set q")
      case False
      with Some show ?thesis
        by (auto simp: list_ex_iff set_submitted_of set_validChoiceIds_of)
    next
      case True
      with Some Cons.prems have "a \<in> set rest" by auto
      from Cons.IH [OF this Cons.prems(2)] Some True show ?thesis
        by (auto simp: list_ex_iff set_submitted_of set_validChoiceIds_of Let_def)
    qed
  qed
qed

text \<open>
  Claim C3, as amended. If an answer entry of a submit request names a question that is not
  of the quiz, or a non-empty choice id that is not of that question, the request is answered
  with a 400-class error and the store is left as it was: nothing is scored, created or
  modified. (The empty choice id is dropped before validation, see the counterexample.)
\<close>

theorem submit_rejects_foreign_ids:
  assumes "a \<in> set (answers body)"
    and "\<not> question_of_quiz s (quizId body) (questionId a)
         \<or> (\<exists>c \<in> set (or_empty (choiceIds a)). c \<noteq> [] \<and> \<not> choice_of_question s (questionId a) c)"
  shows "\<exists>f. submit_POST env (Some body) s = (Inl f, s) \<and> is_400_class f"
proof -
  let ?qs = "question_findMany s (quizId body)"
  have bad: "byQuestionId ?qs (questionId a) = None
         \<or> (\<exists>q. byQuestionId ?qs (questionId a) = Some q \<and> \<not> submitted_set a \<subseteq> valid_set q)"
  proof (cases "byQuestionId ?qs (questionId a)")
    case None
    then show ?thesis by simp
  next
    case (Some q)
    then have "question_of_quiz s (quizId body) (questionId a)"
      using byQuestionId_None [of s "quizId body" "questionId a"] by simp
    with assms(2) obtain c where c: "c \<in> set (or_empty (choiceIds a))" "c \<noteq> []"
      "\<not> choice_of_question s (questionId a) c" by blast
    from c(1) c(2) have "c \<in> submitted_set a" by (simp add: submitted_set_def)
    moreover from c(3) byQuestionId_Some [OF Some] have "c \<notin> valid_set q" by simp
    ultimately show ?thesis using Some by blast
  qed
  obtain m where m: "score_loop ?qs (answers body) 0 = Inl (JsonError 400 m)"
    using score_loop_rejects [OF assms(1) bad, of 0] by blast
  show ?thesis
    using m
    by (auto simp: submit_POST_def is_400_class_def Let_def split: option.splits)
qed

theorem submit_rejects_foreign_ids_witness:
  "entry ''q1'' [''C''] \<in> set (answers \<lparr>quizId = ''z1'', attemptId = None, answers = [entry ''q1'' [''C'']]\<rparr>)
   \<and> \<not> choice_of_question scenario_store ''q1'' ''C''
   \<and> (\<exists>f. submit_POST scenario_env
             (Some \<lparr>quizId = ''z1'', attemptId = None, answers = [entry ''q1'' [''C'']]\<rparr>)
             scenario_store = (Inl f, scenario_store) \<and> is_400_class f)"
proof -
  have m: "entry ''q1'' [''C''] \<in> set (answers \<lparr>quizId = ''z1'', attemptId = None, answers = [entry ''q1'' [''C'']]\<rparr>)"
    by simp
  have n: "\<not> choice_of_question scenario_store ''q1'' ''C''"
    by (simp add: choice_of_question_def scenario_store_def)
  have h: "\<not> question_of_quiz scenario_store (quizId \<lparr>quizId = ''z1'', attemptId = None, answers = [entry ''q1'' [''C'']]\<rparr>) (questionId (entry ''q1'' [''C'']))
         \<or> (\<exists>c \<in> set (or_empty (choiceIds (entry ''q1'' [''C'']))). c \<noteq> [] \<and> \<not> choice_of_question scenario_store (questionId (entry ''q1'' [''C''])) c)"
    using n by (simp add: entry_def)
  from submit_rejects_foreign_ids [OF m h, of scenario_env] m n show ?thesis by blast
qed

text \<open>
  The claim as stated fails for the empty choice id, which is no choice of the question:
  \<^verbatim>\<open>filter(Boolean)\<close> removes it before the validation, the request passes the scoring
  loop, and the nested \<^verbatim>\<open>connect\<close> of the transaction then fails on it. The answer
  is a 500, not a 400-class error.
\<close>

theorem falsy_choiceId_counterexample:
  "\<not> choice_of_question scenario_store ''q1'' []
   \<and> submit_POST scenario_env
        (Some \<lparr>quizId = ''z1'', attemptId = None, answers = [entry ''q1'' [[]]]\<rparr>)
        scenario_store
      = (Inl (Uncaught (RecordNotFound ''_AnswerToChoice_B_fkey'')), scenario_store)
   \<and> \<not> is_400_class (Uncaught (RecordNotFound ''_AnswerToChoice_B_fkey''))"
  by code_simp

section \<open>The score of a submission\<close>

text \<open>
  What the loop computes for every answers array: the number of its correct entries. For an
  array that lists no question twice this is the number of questions answered correctly, at
  most the number of questions.
\<close>

lemma score_loop_counts_entries:
  "score_loop qs es sc = Inr r \<Longrightarrow> r = sc + int (length (filter (entry_correct qs) es))"
proof (induction es arbitrary: sc)
  case Nil
  then show ?case by simp
next
  case (Cons e rest)
  from Cons.prems obtain q where q: "byQuestionId qs (questionId e) = Some q"
    by (cases "byQuestionId qs (questionId e)") auto
  with Cons.prems have
    "score_loop qs rest (if isCorrect (sq_type q) (submitted_of e) (correct_of q) then sc + 1 else sc) = Inr r"
    by (auto simp: Let_def split: if_splits)
  from Cons.IH [OF this] q show ?case by (simp add: entry_correct_def)
qed

lemma byQuestionId_Some_id: "byQuestionId qs qid = Some q \<Longrightarrow> qid \<in> sq_id ` set qs"
proof -
  assume "byQuestionId qs qid = Some q"
  then have "(qid, q) \<in> set (rev (map (\<lambda>q. (sq_id q, q)) qs))"
    unfolding byQuestionId_def by (rule map_of_SomeD)
  then show ?thesis by auto
qed

lemma score_of_distinct_answers:
  assumes "distinct (map questionId es)" and "score_loop qs es 0 = Inr r"
  shows "r = int (card {qid \<in> sq_id ` set qs. \<exists>e \<in> set es. questionId e = qid \<and> entry_correct qs e})
       \<and> r \<le> int (length qs)"
proof -
  let ?ys = "filter (entry_correct qs) es"
  let ?Q = "{qid \<in> sq_id ` set qs. \<exists>e \<in> set es. questionId e = qid \<and> entry_correct qs e}"
  from score_loop_counts_entries [OF assms(2)] have r: "r = int (length ?ys)" by simp
  from assms(1) have "distinct (map questionId ?ys)" by (rule distinct_map_filter)
  from distinct_card [OF this] have "card (questionId ` set ?ys) = length ?ys" by simp
  moreover have "questionId ` set ?ys = ?Q"
  proof (intro set_eqI iffI)
    fix qid
    assume "qid \<in> questionId ` set ?ys"
    then obtain e where e: "e \<in> set es" "entry_correct qs e" "questionId e = qid" by auto
    from e(2) obtain q where "byQuestionId qs (questionId e) = Some q"
      by (auto simp: entry_correct_def split: option.splits)
    from byQuestionId_Some_id [OF this] e show "qid \<in> ?Q" by auto
  next
    fix qid
    assume "qid \<in> ?Q"
    then show "qid \<in> questionId ` set ?ys" by force
  qed
  ultimately have c: "card ?Q = length ?ys" by simp
  have "?Q \<subseteq> sq_id ` set qs" by auto
  then have "card ?Q \<le> card (sq_id ` set qs)" by (intro card_mono) simp_all
  also have "\<dots> \<le> card (set qs)" by (rule card_image_le) simp
  also have "\<dots> \<le> length qs" by (rule card_length)
  finally have "card ?Q \<le> length qs" .
  with c r show ?thesis by simp
qed

text \<open>
  Claim C2. The score is meant to be the number of questions of the quiz that are answered
  correctly, so at most \<^verbatim>\<open>totalQuestions\<close>. The loop adds 1 for every correct entry of
  the answers array, so an array that lists a question three times counts it three times:
  here the quiz has two questions, the request finalizes the attempt in progress, and the
  response carries score 3 with totalQuestions 2, stored as the score of the attempt.
\<close>

theorem submit_counts_repeated_question:
  "submit_POST scenario_env
     (Some \<lparr>quizId = ''z1'', attemptId = Some ''t1'',
            answers = [entry ''q1'' [''A''], entry ''q1'' [''A''], entry ''q1'' [''A'']]\<rparr>)
     scenario_store =
   (Inr \<lparr>sb_id = ''t1'', sb_score = 3, sb_attemptNo = 1, sb_totalQuestions = 2\<rparr>,
    scenario_store
      \<lparr>attempt_rows :=
         [\<lparr>at_id = ''t1'', at_status = SUBMITTED, at_attemptNo = 1, at_startedAt = 5,
           at_submittedAt = Some 10, at_score = Some 3, at_userId = ''u1'', at_quizId = ''z1''\<rparr>],
       answer_rows :=
         [\<lparr>an_attemptId = ''t1'', an_questionId = ''q1'', an_choices = {''A''}\<rparr>]\<rparr>)"
  by code_simp

section \<open>Attempts over sequential runs\<close>

text \<open>
  Claim C6. Save and submit resolve only attempts whose status is \<^verbatim>\<open>IN_PROGRESS\<close>, and
  they write only to the resolved attempt or to an attempt they create. Hence an attempt
  that is no longer in progress is final: after any sequence of save and submit requests it
  is still in the store with the same status, score and submission time, it is the only
  attempt with its id, and its answer rows are the same. In particular an attempt goes from
  \<^verbatim>\<open>IN_PROGRESS\<close> to \<^verbatim>\<open>SUBMITTED\<close> at most once.
\<close>

theorem submitted_attempt_is_final:
  assumes "pk_attempts s" and "a \<in> set (attempt_rows s)" and "at_status a \<noteq> IN_PROGRESS"
  shows "a \<in> set (attempt_rows (run s rs))
       \<and> (\<forall>b \<in> set (attempt_rows (run s rs)). at_id b = at_id a \<longrightarrow> b = a)
       \<and> filter (\<lambda>r. an_attemptId r = at_id a) (answer_rows (run s rs)) =
          filter (\<lambda>r. an_attemptId r = at_id a) (answer_rows s)
       \<and> (\<forall>uid body x. save_resolve s uid body = Some x \<longrightarrow> at_status x = IN_PROGRESS)
       \<and> (\<forall>uid body x. submit_resolve s uid body = Some x \<longrightarrow> at_status x = IN_PROGRESS)"
proof -
  note k = run_keeps_final [OF assms, of rs]
  have u: "\<forall>b \<in> set (attempt_rows (run s rs)). at_id b = at_id a \<longrightarrow> b = a"
  proof (intro ballI impI)
    fix b
    assume b: "b \<in> set (attempt_rows (run s rs))" and i: "at_id b = at_id a"
    have d: "distinct (map at_id (attempt_rows (run s rs)))"
      using run_pk [OF assms(1), of rs] by (simp only: pk_attempts_def)
    from distinct_map_eq [OF d b k [THEN conjunct1] i] show "b = a" .
  qed
  have sv: "\<forall>uid body x. save_resolve s uid body = Some x \<longrightarrow> at_status x = IN_PROGRESS"
  proof (intro allI impI)
    fix uid body x
    assume "save_resolve s uid body = Some x"
    from save_resolve_Some [OF this] show "at_status x = IN_PROGRESS"
      by (simp add: in_progress_of_def)
  qed
  have sb: "\<forall>uid body x. submit_resolve s uid body = Some x \<longrightarrow> at_status x = IN_PROGRESS"
  proof (intro allI impI)
    fix uid body x
    assume "submit_resolve s uid body = Some x"
    from submit_resolve_Some [OF this] show "at_status x = IN_PROGRESS"
      by (simp add: in_progress_of_def)
  qed
  from k u sv sb show ?thesis by blast
qed

theorem submitted_attempt_is_final_witness:
  "pk_attempts finished_store
   \<and> finished_attempt \<in> set (attempt_rows finished_store)
   \<and> at_status finished_attempt \<noteq> IN_PROGRESS
   \<and> finished_attempt \<in> set (attempt_rows (run finished_store demo_requests))
   \<and> filter (\<lambda>r. an_attemptId r = ''t1'') (answer_rows (run finished_store demo_requests)) =
      [\<lparr>an_attemptId = ''t1'', an_questionId = ''q1'', an_choices = {''A''}\<rparr>]
   \<and> length (attempt_rows (run finished_store demo_requests)) = 3"
proof -
  have pk: "pk_attempts finished_store"
    by (simp add: pk_attempts_def finished_store_def)
  have m: "finished_attempt \<in> set (attempt_rows finished_store)"
    by (simp add: finished_store_def)
  have st: "at_status finished_attempt \<noteq> IN_PROGRESS"
    by (simp add: finished_attempt_def)
  have i: "at_id finished_attempt = ''t1''"
    by (simp add: finished_attempt_def)
  have f: "filter (\<lambda>r. an_attemptId r = ''t1'') (answer_rows finished_store) =
      [\<lparr>an_attemptId = ''t1'', an_questionId = ''q1'', an_choices = {''A''}\<rparr>]"
    by (simp add: finished_store_def)
  have n: "length (attempt_rows (run finished_store demo_requests)) = 3"
    by code_simp
  from submitted_attempt_is_final [OF pk m st, of demo_requests] pk m st n
  show ?thesis unfolding i f by blast
qed

text \<open>
  Claim C7. A request that creates an attempt gives it the greatest attempt number of the
  user for the quiz plus 1, and 1 when there is none. Over any sequence of save and submit
  requests the attempt numbers of a user for a quiz, in the order of creation, stay strictly
  increasing, hence without repetition, and the numbers given earlier stay in place.
\<close>

theorem attemptNo_next_and_increasing:
  "(attempt_rows (step s rq) = attempt_rows s @ [a] \<longrightarrow>
      at_attemptNo a =
        (if attemptNos_of s (at_userId a) (at_quizId a) = [] then 0
         else Max (set (attemptNos_of s (at_userId a) (at_quizId a)))) + 1)
   \<and> (sorted_wrt (<) (attemptNos_of s uid qz) \<longrightarrow>
        sorted_wrt (<) (attemptNos_of (run s rs) uid qz)
        \<and> distinct (attemptNos_of (run s rs) uid qz)
        \<and> (\<exists>more. attemptNos_of (run s rs) uid qz = attemptNos_of s uid qz @ more))"
proof -
  have 1: "attempt_rows (step s rq) = attempt_rows s @ [a] \<longrightarrow>
      at_attemptNo a =
        (if attemptNos_of s (at_userId a) (at_quizId a) = [] then 0
         else Max (set (attemptNos_of s (at_userId a) (at_quizId a)))) + 1"
    using step_created_attemptNo [of s rq a] next_attemptNo_Max [of s "at_userId a" "at_quizId a"]
    by simp
  have 2: "sorted_wrt (<) (attemptNos_of s uid qz) \<longrightarrow>
        sorted_wrt (<) (attemptNos_of (run s rs) uid qz)
        \<and> distinct (attemptNos_of (run s rs) uid qz)
        \<and> (\<exists>more. attemptNos_of (run s rs) uid qz = attemptNos_of s uid qz @ more)"
  proof
    assume a: "sorted_wrt (<) (attemptNos_of s uid qz)"
    from run_attemptNos [OF a, of rs] have
      s: "sorted_wrt (<) (attemptNos_of (run s rs) uid qz)"
      and m: "\<exists>more. attemptNos_of (run s rs) uid qz = attemptNos_of s uid qz @ more" by blast+
    from s have "distinct (attemptNos_of (run s rs) uid qz)"
      by (simp add: strict_sorted_iff)
    with s m show "sorted_wrt (<) (attemptNos_of (run s rs) uid qz)
        \<and> distinct (attemptNos_of (run s rs) uid qz)
        \<and> (\<exists>more. attemptNos_of (run s rs) uid qz = attemptNos_of s uid qz @ more)" by blast
  qed
  from 1 2 show ?thesis by blast
qed

theorem attemptNo_next_and_increasing_witness:
  "attempt_rows (step scenario_store (Submit scenario_env (Some plain_body))) =
     attempt_rows scenario_store @ [second_attempt]
   \<and> at_attemptNo second_attempt =
       (if attemptNos_of scenario_store (at_userId second_attempt) (at_quizId second_attempt) = [] then 0
        else Max (set (attemptNos_of scenario_store (at_userId second_attempt) (at_quizId second_attempt)))) + 1
   \<and> at_attemptNo second_attempt = 2
   \<and> sorted_wrt (<) (attemptNos_of finished_store ''u1'' ''z1'')
   \<and> sorted_wrt (<) (attemptNos_of (run finished_store demo_requests) ''u1'' ''z1'')
   \<and> distinct (attemptNos_of (run finished_store demo_requests) ''u1'' ''z1'')
   \<and> attemptNos_of (run finished_store demo_requests) ''u1'' ''z1'' = [1, 2, 3]"
proof -
  have e: "attempt_rows (step scenario_store (Submit scenario_env (Some plain_body))) =
     attempt_rows scenario_store @ [second_attempt]"
    by code_simp
  have n: "at_attemptNo second_attempt = 2"
    by (simp add: second_attempt_def)
  have s0: "sorted_wrt (<) (attemptNos_of finished_store ''u1'' ''z1'')"
    by code_simp
  have v: "attemptNos_of (run finished_store demo_requests) ''u1'' ''z1'' = [1, 2, 3]"
    by code_simp
  from attemptNo_next_and_increasing
    [of scenario_store "Submit scenario_env (Some plain_body)" second_attempt "''u1''" "''z1''" "[]",
     THEN conjunct1] e
  have 1: "at_attemptNo second_attempt =
       (if attemptNos_of scenario_store (at_userId second_attempt) (at_quizId second_attempt) = [] then 0
        else Max (set (attemptNos_of scenario_store (at_userId second_attempt) (at_quizId second_attempt)))) + 1"
    by blast
  from attemptNo_next_and_increasing
    [of finished_store "Submit scenario_env (Some plain_body)" second_attempt "''u1''" "''z1''" demo_requests,
     THEN conjunct2] s0
  have 2: "sorted_wrt (<) (attemptNos_of (run finished_store demo_requests) ''u1'' ''z1'')
        \<and> distinct (attemptNos_of (run finished_store demo_requests) ''u1'' ''z1'')"
    by blast
  from e 1 n s0 2 v show ?thesis by blast
qed

section \<open>Attempt resolution in the handlers\<close>










section \<open>Idempotence of save\<close>

lemma save_POST_Inr:
  "(save_POST env (Some body) s = (Inr r, s')) =
   (\<exists>uid z. auth env = Some uid \<and> rl_ok env \<and> Boolean (quizId body)
      \<and> quiz_findUnique s (quizId body) = Some z \<and> z_isPublished z
      \<and> save_tx uid env body s = Inr (r, s'))"
  by (auto simp: save_POST_def transaction_def split: option.splits if_splits sum.splits)

lemma save_tx_upserts:
  assumes "save_tx uid env body s = Inr (r, s1)"
  obtains s0 where "upsert_answers (so_attemptId r) (answers body) s0 = Inr s1"
    and "quiz_rows s0 = quiz_rows s" and "answer_rows s0 = answer_rows s"
  using assms
proof (cases rule: save_tx_cases)
  case (resolved x)
  then have "upsert_answers (so_attemptId r) (answers body) s = Inr s1" by simp
  then show ?thesis using that by blast
next
  case created
  let ?a = "\<lparr>at_id = newId env, at_status = IN_PROGRESS,
              at_attemptNo = next_attemptNo s uid (quizId body),
              at_startedAt = now env, at_submittedAt = None, at_score = None,
              at_userId = uid, at_quizId = quizId body\<rparr>"
  from attempt_create_ok(3) [OF created(2)] created(3)
  have "upsert_answers (so_attemptId r) (answers body) (s\<lparr>attempt_rows := attempt_rows s @ [?a]\<rparr>) = Inr s1"
    by simp
  then show ?thesis using that [of "s\<lparr>attempt_rows := attempt_rows s @ [?a]\<rparr>"] by simp
qed

lemma save_tx_attemptNo:
  assumes "save_tx uid env body s = Inr (r, s1)"
  shows "\<exists>y \<in> set (attempt_rows s1). at_id y = so_attemptId r \<and> at_attemptNo y = so_attemptNo r"
  using assms
proof (cases rule: save_tx_cases)
  case (resolved x)
  from save_resolve_Some [OF resolved(1)] upsert_answers_attempt_rows [OF resolved(2)] resolved(3)
  show ?thesis by auto
next
  case created
  from attempt_create_rows [OF created(2)] created(3) show ?thesis by simp
qed

text \<open>
  Claim C8. Saving twice is idempotent. When a save has succeeded, a second save of the same
  user with the same answers array that resolves to the same attempt answers as the first and
  leaves the store as the first left it. After the first save the store has exactly one
  Answer row for the attempt and each question of the array, and the choice set of the row is
  the set of the \<^verbatim>\<open>choiceIds\<close> of the entry (of the last entry for the question, when the
  array lists a question more than once): the set replaces what the row held before.
\<close>

theorem save_twice_idempotent:
  assumes "pk_attempts s" and "unique_answers s"
    and "save_POST env (Some body) s = (Inr r, s1)"
    and "auth env2 = auth env" and "rl_ok env2"
    and "quizId body2 = quizId body" and "answers body2 = answers body"
    and "auth env = Some uid" and "save_resolve s1 uid body2 = Some x" and "at_id x = so_attemptId r"
  shows "save_POST env2 (Some body2) s1 = (Inr r, s1)
       \<and> unique_answers s1
       \<and> (\<forall>e \<in> set (answers body).
            length (filter (answer_is (so_attemptId r) (questionId e)) (answer_rows s1)) = 1)
       \<and> (\<forall>row \<in> set (answer_rows s1). \<forall>cs.
            an_attemptId row = so_attemptId r
            \<and> last_choiceIds (answers body) (an_questionId row) = Some cs \<longrightarrow>
            an_choices row = set cs)
       \<and> (distinct (map questionId (answers body)) \<longrightarrow>
            (\<forall>e \<in> set (answers body). \<forall>row \<in> set (answer_rows s1).
               answer_is (so_attemptId r) (questionId e) row \<longrightarrow>
               an_choices row = set (or_empty (choiceIds e))))"
proof -
  from assms(3) assms(8) obtain z where rl: "rl_ok env" and b: "Boolean (quizId body)"
    and z: "quiz_findUnique s (quizId body) = Some z" "z_isPublished z"
    and tx: "save_tx uid env body s = Inr (r, s1)"
    by (auto simp: save_POST_Inr)
  from tx obtain s0 where up: "upsert_answers (so_attemptId r) (answers body) s0 = Inr s1"
    and qz: "quiz_rows s0 = quiz_rows s" and an: "answer_rows s0 = answer_rows s"
    by (rule save_tx_upserts)
  have quiz: "quiz_findUnique s1 (quizId body) = Some z"
  proof -
    from upsert_answers_others [OF up]
    have "quiz_rows s1 = quiz_rows (s0\<lparr>answer_rows := answer_rows s1\<rparr>)" by simp
    with qz have "quiz_rows s1 = quiz_rows s" by simp
    with z(1) show ?thesis by (simp add: quiz_findUnique_def)
  qed
  have pk1: "pk_attempts s1"
    using step_pk [OF assms(1), of "Save env (Some body)"] assms(3) by simp
  have same: "at_attemptNo x = so_attemptNo r"
  proof -
    from save_tx_attemptNo [OF tx] obtain y where y: "y \<in> set (attempt_rows s1)"
      "at_id y = so_attemptId r" "at_attemptNo y = so_attemptNo r" by blast
    from save_resolve_Some [OF assms(9)] have xm: "x \<in> set (attempt_rows s1)" by simp
    from pk1 have d: "distinct (map at_id (attempt_rows s1))" by (simp only: pk_attempts_def)
    from y(2) assms(10) have "at_id x = at_id y" by simp
    from distinct_map_eq [OF d xm y(1) this] y(3) show ?thesis by simp
  qed
  have again: "upsert_answers (at_id x) (answers body2) s1 = Inr s1"
    using upsert_answers_idempotent [OF up] assms(7) assms(10) by simp
  have r: "r = \<lparr>so_attemptId = at_id x, so_attemptNo = at_attemptNo x\<rparr>"
    using same assms(10) by simp
  have tx2: "save_tx uid env2 body2 s1 = Inr (r, s1)"
    using assms(9) again r by (simp add: save_tx_def)
  have 1: "save_POST env2 (Some body2) s1 = (Inr r, s1)"
    unfolding save_POST_Inr
    using assms(4) assms(5) assms(6) assms(8) b quiz z(2) tx2 by auto
  have u0: "unique_answers s0" using assms(2) an by (simp add: unique_answers_def)
  have 2: "unique_answers s1" by (rule upsert_answers_unique [OF up u0])
  have 3: "\<forall>e \<in> set (answers body).
            length (filter (answer_is (so_attemptId r) (questionId e)) (answer_rows s1)) = 1"
  proof
    fix e
    assume "e \<in> set (answers body)"
    from one_row_per_key [OF 2 upsert_answers_rows_exist [OF up this]]
    show "length (filter (answer_is (so_attemptId r) (questionId e)) (answer_rows s1)) = 1" .
  qed
  have 4: "\<forall>row \<in> set (answer_rows s1). \<forall>cs.
            an_attemptId row = so_attemptId r
            \<and> last_choiceIds (answers body) (an_questionId row) = Some cs \<longrightarrow>
            an_choices row = set cs"
    using upsert_answers_last [OF up] by blast
  have 5: "distinct (map questionId (answers body)) \<longrightarrow>
            (\<forall>e \<in> set (answers body). \<forall>row \<in> set (answer_rows s1).
               answer_is (so_attemptId r) (questionId e) row \<longrightarrow>
               an_choices row = set (or_empty (choiceIds e)))"
  proof (intro impI ballI)
    fix e row
    assume d: "distinct (map questionId (answers body))" and e: "e \<in> set (answers body)"
      and row: "row \<in> set (answer_rows s1)" and hit: "answer_is (so_attemptId r) (questionId e) row"
    from hit have a: "an_attemptId row = so_attemptId r" and q: "an_questionId row = questionId e"
      by (simp_all add: answer_is_def)
    from last_choiceIds_distinct [OF d e] q
    have "last_choiceIds (answers body) (an_questionId row) = Some (or_empty (choiceIds e))" by simp
    from upsert_answers_last [OF up row a this]
    show "an_choices row = set (or_empty (choiceIds e))" .
  qed
  from 1 2 3 4 5 show ?thesis by blast
qed

theorem save_twice_idempotent_witness:
  "pk_attempts scenario_store \<and> unique_answers scenario_store
   \<and> save_POST scenario_env (Some draft_body) scenario_store =
       (Inr \<lparr>so_attemptId = ''t1'', so_attemptNo = 1\<rparr>, drafted_store)
   \<and> save_resolve drafted_store ''u1'' draft_body = Some first_attempt
   \<and> save_POST scenario_env (Some draft_body) drafted_store =
       (Inr \<lparr>so_attemptId = ''t1'', so_attemptNo = 1\<rparr>, drafted_store)
   \<and> unique_answers drafted_store"
proof -
  have pk: "pk_attempts scenario_store"
    by (simp add: pk_attempts_def scenario_store_def)
  have un: "unique_answers scenario_store"
    by (simp add: unique_answers_def scenario_store_def)
  have first: "save_POST scenario_env (Some draft_body) scenario_store =
       (Inr \<lparr>so_attemptId = ''t1'', so_attemptNo = 1\<rparr>, drafted_store)"
    by code_simp
  have au: "auth scenario_env = Some ''u1''" and rl: "rl_ok scenario_env"
    by (simp_all add: scenario_env_def)
  have res: "save_resolve drafted_store ''u1'' draft_body = Some first_attempt"
    by code_simp
  have i: "at_id first_attempt = so_attemptId \<lparr>so_attemptId = ''t1'', so_attemptNo = 1\<rparr>"
    by (simp add: first_attempt_def)
  from save_twice_idempotent [OF pk un first refl rl refl refl au res i] pk un first res
  show ?thesis by blast
qed

end
